theory Spec2Isabelle
  imports Main "HOL-Library.Word" "HOL-Library.Log_Nat" "HOL-Library.Multiset"
begin

section \<open>Double precision arithmetic\<close>

text \<open>
  The batcher keeps its hold-off parameters in C++ \<^verbatim>\<open>double\<close> variables. A finite double is
  a rational number, and every arithmetic operation of the program returns the exact result
  rounded to the nearest number with a 53 bit significand, ties to the even significand
  (IEEE 754 binary64, default rounding). The exponent range is left unbounded: the values the
  batcher computes from its 32 bit parameters stay far inside the normal range, so overflow,
  subnormal numbers, infinities and NaN play no role.
\<close>

type_synonym double = rat

definition pow2 :: "int \<Rightarrow> rat" where
  "pow2 e = (if 0 \<le> e then 2 ^ nat e else 1 / 2 ^ nat (- e))"

text \<open>The binary exponent of a non-zero rational: \<open>pow2 (expo x) \<le> \<bar>x\<bar> < pow2 (expo x + 1)\<close>.\<close>

definition expo :: "rat \<Rightarrow> int" where
  "expo x = (case quotient_of \<bar>x\<bar> of (p, q) \<Rightarrow>
     (let b = bitlen p - bitlen q in if pow2 b \<le> \<bar>x\<bar> then b else b - 1))"

text \<open>Rounding to the nearest integer, a tie going to the even neighbour.\<close>

definition rne :: "rat \<Rightarrow> int" where
  "rne x = (let f = \<lfloor>x\<rfloor>; d = x - of_int f in
     if d < 1 / 2 then f else if 1 / 2 < d then f + 1 else if even f then f else f + 1)"

definition to_double :: "rat \<Rightarrow> double" where
  "to_double x =
     (if x = 0 then 0 else (let u = pow2 (expo x - 52) in of_int (rne (x / u)) * u))"

definition is_double :: "rat \<Rightarrow> bool" where
  "is_double x \<longleftrightarrow> to_double x = x"

definition dadd :: "double \<Rightarrow> double \<Rightarrow> double" where
  "dadd a b = to_double (a + b)"

definition dsub :: "double \<Rightarrow> double \<Rightarrow> double" where
  "dsub a b = to_double (a - b)"

definition dmul :: "double \<Rightarrow> double \<Rightarrow> double" where
  "dmul a b = to_double (a * b)"

definition ddiv :: "double \<Rightarrow> double \<Rightarrow> double" where
  "ddiv a b = to_double (a / b)"

text \<open>Conversions: \<^verbatim>\<open>unsigned int\<close> and \<^verbatim>\<open>size_t\<close> to double, and
  \<^verbatim>\<open>static_cast<unsigned int>\<close> of a double, which truncates towards zero and is undefined
  (\<open>None\<close>) when the truncated value is not an \<^verbatim>\<open>unsigned int\<close>.\<close>

definition of_uint :: "32 word \<Rightarrow> double" where
  "of_uint w = to_double (of_nat (unat w))"

definition of_size :: "nat \<Rightarrow> double" where
  "of_size n = to_double (of_nat n)"

definition to_uint :: "double \<Rightarrow> 32 word option" where
  "to_uint x =
     (let t = (if 0 \<le> x then \<lfloor>x\<rfloor> else \<lceil>x\<rceil>)
      in if 0 \<le> t \<and> t < 2 ^ 32 then Some (word_of_int t) else None)"

section \<open>RequestQueueBatcher\<close>

datatype menuPriority = menuPriorityLOW | menuPriorityMID | menuPriorityHIGH

text \<open>
  The members of \<^verbatim>\<open>RequestQueueBatcher<T>\<close> that the operations read and write. The three
  queues are indexed by priority; \<open>workToDo\<close> is the binary event (\<open>True\<close>: signalled).
  The mutexes are not state: every operation below is one critical section.
\<close>

record 'a batcher =
  queue :: "menuPriority \<Rightarrow> 'a list"
  maxBatchSize :: "32 word"
  holdOffVar :: double
  holdOffFix :: double
  workToDo :: bool
  workerShutdown :: bool

definition pushRequest :: "'a \<Rightarrow> menuPriority \<Rightarrow> 'a batcher \<Rightarrow> 'a batcher" where
  "pushRequest cargo priority s =
     s\<lparr>queue := (queue s)(priority := queue s priority @ [cargo]), workToDo := True\<rparr>"

text \<open>The overload of \<^verbatim>\<open>pushRequest\<close> that takes a vector of requests.\<close>

definition pushRequests :: "'a list \<Rightarrow> menuPriority \<Rightarrow> 'a batcher \<Rightarrow> 'a batcher" where
  "pushRequests cargo priority s =
     s\<lparr>queue := (queue s)(priority := queue s priority @ cargo), workToDo := True\<rparr>"

definition empty_q :: "menuPriority \<Rightarrow> 'a batcher \<Rightarrow> bool" where
  "empty_q priority s \<longleftrightarrow> queue s priority = []"

definition size_q :: "menuPriority \<Rightarrow> 'a batcher \<Rightarrow> nat" where
  "size_q priority s = length (queue s priority)"

definition clear :: "'a batcher \<Rightarrow> 'a batcher" where
  "clear s =
     fold (\<lambda>prio t. t\<lparr>queue := (queue t)(prio := [])\<rparr>)
       [menuPriorityHIGH, menuPriorityMID, menuPriorityLOW] s"

definition setParams :: "32 word \<Rightarrow> 32 word \<Rightarrow> 32 word \<Rightarrow> 'a batcher \<Rightarrow> 'a batcher" where
  "setParams maxRequestsPerBatch minHoldOff maxHoldOff s =
     (let s1 = s\<lparr>maxBatchSize := maxRequestsPerBatch\<rparr>;
          s2 = (if maxRequestsPerBatch \<noteq> 0
                then s1\<lparr>holdOffVar :=
                       (if maxHoldOff \<noteq> 0
                        then ddiv (dsub (of_uint maxHoldOff) (of_uint minHoldOff))
                               (dmul (of_uint maxRequestsPerBatch) 1000)
                        else 0)\<rparr>
                else s1)
      in s2\<lparr>holdOffFix := ddiv (of_uint minHoldOff) 1000\<rparr>)"

text \<open>The constructor: the member initialisers, then \<^verbatim>\<open>setParams\<close>. The worker thread and
  its start are not part of the state.\<close>

definition RequestQueueBatcher :: "32 word \<Rightarrow> 32 word \<Rightarrow> 32 word \<Rightarrow> 'a batcher" where
  "RequestQueueBatcher maxRequestsPerBatch minHoldOff maxHoldOff =
     setParams maxRequestsPerBatch minHoldOff maxHoldOff
       \<lparr>queue = (\<lambda>_. []), maxBatchSize = 0, holdOffVar = 0, holdOffFix = 0,
        workToDo = False, workerShutdown = False\<rparr>"

definition maxRequests :: "'a batcher \<Rightarrow> 32 word" where
  "maxRequests s = maxBatchSize s"

definition minHoldOff :: "'a batcher \<Rightarrow> 32 word option" where
  "minHoldOff s = to_uint (dmul (holdOffFix s) 1000)"

definition maxHoldOff :: "'a batcher \<Rightarrow> 32 word option" where
  "maxHoldOff s =
     to_uint (dmul (dadd (holdOffFix s) (dmul (holdOffVar s) (of_uint (maxBatchSize s)))) 1000)"

subsection \<open>The worker thread\<close>

text \<open>
  Calls that other threads make on the batcher while the worker runs. Each call is one
  critical section and is taken as one atomic step.
\<close>

datatype 'a call =
    PushRequest 'a menuPriority
  | PushRequests "'a list" menuPriority
  | Clear
  | SetParams "32 word" "32 word" "32 word"

fun do_call :: "'a call \<Rightarrow> 'a batcher \<Rightarrow> 'a batcher" where
  "do_call (PushRequest cargo priority) s = pushRequest cargo priority s"
| "do_call (PushRequests cargo priority) s = pushRequests cargo priority s"
| "do_call Clear s = clear s"
| "do_call (SetParams maxRequestsPerBatch minHold maxHold) s =
     setParams maxRequestsPerBatch minHold maxHold s"

definition others :: "'a call list \<Rightarrow> 'a batcher \<Rightarrow> 'a batcher" where
  "others calls s = fold do_call calls s"

text \<open>
  The places in one pass of the worker's loop where it holds no lock, so that calls of other
  threads can take effect: before it reads \<open>maxBatchSize\<close>, before it locks a queue, between
  unlocking that queue and testing it for emptiness, and from the last test until it reads
  the hold-off parameters (this is where the consumer processes the batch). A schedule gives
  the calls that happen at each place.
\<close>

datatype point =
    BeforeParams
  | BeforeLock menuPriority
  | BeforeCheck menuPriority
  | BeforeHoldOff

type_synonym 'a schedule = "point \<Rightarrow> 'a call list"

definition quiet :: "'a schedule" where
  "quiet = (\<lambda>_. [])"

text \<open>The inner \<^verbatim>\<open>while\<close> loop: move requests from the front of one queue to the end of the
  batch while the queue has elements and the batch is below the limit \<open>mx\<close>, the value read
  from \<open>maxBatchSize\<close> (0: no limit).\<close>

fun drain :: "nat \<Rightarrow> 'a list \<Rightarrow> 'a list \<Rightarrow> 'a list \<times> 'a list" where
  "drain mx batch [] = (batch, [])"
| "drain mx batch (x # q) =
     (if mx = 0 \<or> length batch < mx then drain mx (batch @ [x]) q else (batch, x # q))"

text \<open>The body of the \<^verbatim>\<open>for\<close> loop over the priorities, for one priority.\<close>

definition collect ::
  "nat \<Rightarrow> 'a schedule \<Rightarrow> menuPriority \<Rightarrow> 'a list \<times> 'a batcher \<Rightarrow> 'a list \<times> 'a batcher" where
  "collect mx env prio bs =
     (case bs of (batch, s) \<Rightarrow>
        (let s1 = others (env (BeforeLock prio)) s;
             (batch', q') = (if mx = 0 \<or> length batch < mx
                             then drain mx batch (queue s1 prio)
                             else (batch, queue s1 prio));
             s2 = others (env (BeforeCheck prio)) (s1\<lparr>queue := (queue s1)(prio := q')\<rparr>)
         in (batch', if queue s2 prio \<noteq> [] then s2\<lparr>workToDo := True\<rparr> else s2)))"

text \<open>The \<^verbatim>\<open>for\<close> loop: from the highest priority down to the lowest, starting with an
  empty batch.\<close>

definition gather :: "nat \<Rightarrow> 'a schedule \<Rightarrow> 'a batcher \<Rightarrow> 'a list \<times> 'a batcher" where
  "gather mx env s =
     fold (collect mx env) [menuPriorityHIGH, menuPriorityMID, menuPriorityLOW] ([], s)"

text \<open>What one pass of the loop does to the outside: the batch it collected, the argument
  of \<^verbatim>\<open>consumer.processRequests\<close> and of \<^verbatim>\<open>sleep\<close> (\<open>None\<close>: not called), and the hold-off
  it computed.\<close>

record 'a pass =
  collected :: "'a list"
  processRequests :: "'a list option"
  holdOff :: double
  sleep :: "double option"

text \<open>
  One pass of the loop of \<^verbatim>\<open>run\<close>, from after \<^verbatim>\<open>workToDo.wait()\<close> and the shutdown test to
  the end of the loop body. The consumer gets the vector by reference and may change it:
  \<open>consumer\<close> maps the batch to what the call leaves in the vector.
\<close>

definition cycle ::
  "('a list \<Rightarrow> 'a list) \<Rightarrow> 'a schedule \<Rightarrow> 'a batcher \<Rightarrow> 'a pass \<times> 'a batcher" where
  "cycle consumer env s =
     (let s0 = others (env BeforeParams) s;
          mx = unat (maxBatchSize s0);
          (batch, s1) = gather mx env s0;
          left = (if batch \<noteq> [] then consumer batch else batch);
          s2 = others (env BeforeHoldOff) s1;
          h = dadd (holdOffFix s2) (dmul (holdOffVar s2) (of_size (length left)))
      in (\<lparr>collected = batch,
           processRequests = (if batch \<noteq> [] then Some batch else None),
           holdOff = h,
           sleep = (if 0 < h then Some h else None)\<rparr>, s2))"

text \<open>
  The worker thread with no other thread running: the loop of \<^verbatim>\<open>run\<close> up to the point where
  it leaves the loop (shutdown) or \<^verbatim>\<open>workToDo.wait()\<close> finds the event empty, where it blocks
  for good as nobody is left to signal. The result is the list of passes made.
\<close>

function run :: "('a list \<Rightarrow> 'a list) \<Rightarrow> 'a batcher \<Rightarrow> 'a pass list \<times> 'a batcher" where
  "run consumer s =
     (if \<not> workToDo s then ([], s)
      else if workerShutdown s then ([], s\<lparr>workToDo := False\<rparr>)
      else (case cycle consumer quiet (s\<lparr>workToDo := False\<rparr>) of (out, s') \<Rightarrow>
              (case run consumer s' of (outs, s'') \<Rightarrow> (out # outs, s''))))"
  by pat_completeness auto

subsection \<open>Notions used in the statements\<close>

text \<open>The number of requests that one visit of a queue \<open>q\<close> adds to a batch of length \<open>n\<close>
  under the limit \<open>mx\<close>.\<close>

definition taken :: "nat \<Rightarrow> nat \<Rightarrow> 'a list \<Rightarrow> nat" where
  "taken mx n q = (if mx = 0 then length q else min (mx - n) (length q))"

text \<open>The state in which the worker, in the pass that starts in \<open>s\<close>, locks the queue of a
  priority: the calls scheduled before and the visits of the higher priorities have taken
  effect.\<close>

definition at_lock :: "'a schedule \<Rightarrow> 'a batcher \<Rightarrow> menuPriority \<Rightarrow> 'a batcher" where
  "at_lock env s prio =
     (let s0 = others (env BeforeParams) s;
          mx = unat (maxBatchSize s0);
          higher = (case prio of
                      menuPriorityHIGH \<Rightarrow> []
                    | menuPriorityMID \<Rightarrow> [menuPriorityHIGH]
                    | menuPriorityLOW \<Rightarrow> [menuPriorityHIGH, menuPriorityMID])
      in others (env (BeforeLock prio)) (snd (fold (collect mx env) higher ([], s0))))"

text \<open>The number of requests that wait in the queues, and the requests themselves as a
  multiset.\<close>

definition backlog :: "'a batcher \<Rightarrow> nat" where
  "backlog s =
     length (queue s menuPriorityHIGH) + length (queue s menuPriorityMID)
       + length (queue s menuPriorityLOW)"

definition waiting :: "'a batcher \<Rightarrow> 'a multiset" where
  "waiting s =
     mset (queue s menuPriorityHIGH) + mset (queue s menuPriorityMID)
       + mset (queue s menuPriorityLOW)"

text \<open>The parameter block, and one pass of the loop as the specification describes it: all
  three parameters come from one snapshot \<open>(maxBatchSize, holdOffVar, holdOffFix)\<close> of the
  block instead of being read from the state where they are used.\<close>

definition params :: "'a batcher \<Rightarrow> 32 word \<times> double \<times> double" where
  "params s = (maxBatchSize s, holdOffVar s, holdOffFix s)"

definition cycle_snapshot ::
  "32 word \<times> double \<times> double \<Rightarrow> ('a list \<Rightarrow> 'a list) \<Rightarrow> 'a schedule \<Rightarrow> 'a batcher
     \<Rightarrow> 'a pass \<times> 'a batcher" where
  "cycle_snapshot snapshot consumer env s =
     (case snapshot of (max_batch, hold_var, hold_fix) \<Rightarrow>
        (let s0 = others (env BeforeParams) s;
             (batch, s1) = gather (unat max_batch) env s0;
             left = (if batch \<noteq> [] then consumer batch else batch);
             s2 = others (env BeforeHoldOff) s1;
             h = dadd hold_fix (dmul hold_var (of_size (length left)))
         in (\<lparr>collected = batch,
              processRequests = (if batch \<noteq> [] then Some batch else None),
              holdOff = h,
              sleep = (if 0 < h then Some h else None)\<rparr>, s2)))"

text \<open>Whether a call is \<^verbatim>\<open>setParams\<close>.\<close>

fun is_setParams :: "'a call \<Rightarrow> bool" where
  "is_setParams (SetParams a b c) = True"
| "is_setParams c = False"

section \<open>Splitting link strings\<close>

text \<open>
  Modelled from the spec: \<^verbatim>\<open>splitString\<close> (declared in \<^verbatim>\<open>linkParser.h\<close>), whose definition is
  not among the sources; only its tests are. The specification describes it as a scan from
  left to right that accumulates a current token: an unescaped delimiter finalizes the
  current token and starts a new one, at the end of the string the current token is emitted,
  and the backslash is the escape. For what the escape covers the specification refers to
  its exact expectations, which are those of the tests: an escaped delimiter is appended to
  the current token without the backslash and does not split; a backslash before any other
  character is kept and escapes nothing, so that of two backslashes before a delimiter the
  first is kept and the second escapes the delimiter. A backslash at the very end, which the
  specification leaves open and no test reaches, is kept here like any backslash that no
  delimiter follows; this is a choice of the model, and no statement below about the
  escape is made for it.
\<close>

definition backslash :: char where
  "backslash = CHR 0x5C"

fun scan :: "char \<Rightarrow> string \<Rightarrow> string \<Rightarrow> string list" where
  "scan delim token [] = [token]"
| "scan delim token [c] = (if c = delim then [token, []] else [token @ [c]])"
| "scan delim token (c # e # cs) =
     (if c = backslash \<and> e = delim then scan delim (token @ [e]) cs
      else if c = delim then token # scan delim [] (e # cs)
      else scan delim (token @ [c]) (e # cs))"

definition splitString :: "string \<Rightarrow> char \<Rightarrow> string list" where
  "splitString str delim = scan delim [] str"

definition defaultElementDelimiter :: char where
  "defaultElementDelimiter = CHR ''.''"




text \<open>The test \<^verbatim>\<open>splitString_seriesOfEscapedBackslashesAndDelimiters\<close> of
  \<^verbatim>\<open>LinkParserTest.cpp\<close>: its input (a raw string literal) and the one token it expects.\<close>

definition series_input :: string where
  "series_input =
     ''one'' @ [backslash] @ ''.'' @ [backslash] @ ''.'' @ [backslash, backslash] @ ''.two''
       @ [backslash] @ ''.'' @ [backslash] @ ''.'' @ [backslash] @ ''three''"

definition series_expected :: "string list" where
  "series_expected = [''one..'' @ [backslash] @ ''.two..'' @ [backslash] @ ''three'']"

text \<open>The fifteen tests of \<^verbatim>\<open>LinkParserTest.cpp\<close>, in the order of the file: the string that is
  split at the default delimiter and the tokens that the test expects.\<close>

definition LinkParserTest :: "(string \<times> string list) list" where
  "LinkParserTest =
     [([], [[]]),
      (''.'', [[], []]),
      (''..'', [[], [], []]),
      (''one'', [''one'']),
      (''one.two'', [''one'', ''two'']),
      (''one.two.three'', [''one'', ''two'', ''three'']),
      (''one'' @ [backslash] @ ''.two'', [''one.two'']),
      (''one'' @ [backslash] @ ''.two'' @ [backslash] @ ''.three'', [''one.two.three'']),
      (''one'' @ [backslash] @ ''.'' @ [backslash] @ ''.'' @ [backslash] @ ''.two''
         @ [backslash] @ ''.'' @ [backslash] @ ''.three'', [''one...two..three'']),
      (series_input, series_expected),
      (''.two.three'', [[], ''two'', ''three'']),
      ([backslash] @ ''..two.three'', [''.'', ''two'', ''three'']),
      (''..three'', [[], [], ''three'']),
      (''one.two.'', [''one'', ''two'', []]),
      (''one..'', [''one'', [], []])]"

section \<open>Example states\<close>

text \<open>A batcher limited to two requests per batch, without hold-off, holding five requests
  of low priority.\<close>

definition capped :: "nat batcher" where
  "capped = pushRequests [1, 2, 3, 4, 5] menuPriorityLOW (RequestQueueBatcher 2 0 0)"

text \<open>A batcher limited to ten requests per batch into which three requests of low, then
  two of medium, then one of high priority were pushed.\<close>

definition mixed :: "nat batcher" where
  "mixed =
     pushRequest 6 menuPriorityHIGH
       (pushRequests [4, 5] menuPriorityMID
          (pushRequests [1, 2, 3] menuPriorityLOW (RequestQueueBatcher 10 10 100)))"

text \<open>A batcher with empty queues whose worker was woken: an empty vector of requests was
  pushed.\<close>

definition idle :: "nat batcher" where
  "idle = pushRequests [] menuPriorityLOW (RequestQueueBatcher 10 10 100)"

text \<open>A schedule in which another thread calls \<^verbatim>\<open>setParams(10, 10, 100)\<close> while the consumer
  processes the batch, and one in which calls arrive before the worker reads the limit and
  while it collects, but no \<^verbatim>\<open>setParams\<close> after the limit is read.\<close>

definition late_params :: "nat schedule" where
  "late_params = quiet(BeforeHoldOff := [SetParams 10 10 100])"

definition early_params :: "nat schedule" where
  "early_params =
     quiet(BeforeParams := [SetParams 3 10 100],
           BeforeLock menuPriorityMID := [PushRequest 9 menuPriorityMID],
           BeforeHoldOff := [PushRequest 8 menuPriorityHIGH])"

text \<open>A batcher whose parameters were set twice, the second time without a limit.\<close>

definition reset :: "nat batcher" where
  "reset = setParams 0 5 7 (RequestQueueBatcher 10 10 100)"

text \<open>A batcher for batches of one request, holding one request.\<close>

definition single :: "nat batcher" where
  "single = pushRequest 7 menuPriorityLOW (RequestQueueBatcher 1 1 10)"

text \<open>A batcher constructed with the parameters (10, 10, 100) whose parameters were then set
  to (0, 0, 0): no limit and no hold-off. Two requests were pushed.\<close>

definition stale :: "nat batcher" where
  "stale =
     pushRequests [1, 2] menuPriorityLOW (setParams 0 0 0 (RequestQueueBatcher 10 10 100))"

section \<open>Rounding to double precision\<close>

lemma pow2_powi: "pow2 e = 2 powi e"
  by (simp add: pow2_def power_int_def power_one_over inverse_eq_divide)

lemma pow2_pos [simp]: "0 < pow2 e"
  by (simp add: pow2_powi)

lemma pow2_nonneg [simp]: "0 \<le> pow2 e"
  by (simp add: pow2_powi)

lemma pow2_neq0 [simp]: "pow2 e \<noteq> 0"
  by (simp add: pow2_powi)

lemma pow2_not_le0 [simp]: "\<not> pow2 e \<le> 0"
  by (simp add: not_le)

lemma pow2_abs [simp]: "\<bar>pow2 e\<bar> = pow2 e"
  by (simp add: abs_if not_less less_imp_le)

lemma pow2_add: "pow2 (a + b) = pow2 a * pow2 b"
  by (simp add: pow2_powi power_int_add)

lemma pow2_diff: "pow2 (a - b) = pow2 a / pow2 b"
  by (simp add: pow2_powi power_int_diff)

lemma pow2_mono: "a \<le> b \<Longrightarrow> pow2 a \<le> pow2 b"
  by (simp add: pow2_powi power_int_increasing)

lemma pow2_strict_mono: "a < b \<Longrightarrow> pow2 a < pow2 b"
  by (simp add: pow2_powi power_int_strict_increasing)

lemma pow2_1: "pow2 1 = 2"
  by (simp add: pow2_def)

lemma pow2_nat: "pow2 (int n) = 2 ^ n"
  by (simp add: pow2_def)

lemma expo_bounds:
  assumes "x \<noteq> 0"
  shows "pow2 (expo x) \<le> \<bar>x\<bar> \<and> \<bar>x\<bar> < pow2 (expo x + 1)"
proof -
  obtain p q where pq: "quotient_of \<bar>x\<bar> = (p, q)"
    by (cases "quotient_of \<bar>x\<bar>")
  then have q: "0 < q" and x: "\<bar>x\<bar> = of_int p / of_int q"
    by (simp_all add: quotient_of_denom_pos quotient_of_div)
  from assms have "0 < \<bar>x\<bar>" by simp
  with q x have p: "0 < p"
    by (simp add: zero_less_divide_iff)
  have bl: "1 \<le> bitlen p" "1 \<le> bitlen q"
    using p q by (simp_all add: bitlen_alt_def)
  let ?b = "bitlen p - bitlen q"
  have bp: "2 ^ nat (bitlen p - 1) \<le> p" "p < 2 ^ nat (bitlen p)"
    using bitlen_bounds [OF p] by simp_all
  have bq: "2 ^ nat (bitlen q - 1) \<le> q" "q < 2 ^ nat (bitlen q)"
    using bitlen_bounds [OF q] by simp_all
  have int_bounds: "pow2 (bitlen n - 1) \<le> of_int n \<and> of_int n < pow2 (bitlen n)"
    if n: "0 < n" for n
  proof -
    have "1 \<le> bitlen n"
      using n by (simp add: bitlen_alt_def)
    moreover have "(of_int (2 ^ nat (bitlen n - 1)) :: rat) \<le> of_int n"
      using bitlen_bounds [OF n] by (simp only: of_int_le_iff)
    moreover have "(of_int n :: rat) < of_int (2 ^ nat (bitlen n))"
      using bitlen_bounds [OF n] by (simp only: of_int_less_iff)
    ultimately show ?thesis
      by (simp add: pow2_def)
  qed
  have P: "pow2 (bitlen p - 1) \<le> of_int p" "of_int p < pow2 (bitlen p)"
    and Q: "pow2 (bitlen q - 1) \<le> of_int q" "of_int q < pow2 (bitlen q)"
    using int_bounds [OF p] int_bounds [OF q] by simp_all
  have "\<bar>x\<bar> < pow2 (bitlen p) / pow2 (bitlen q - 1)"
    unfolding x using p q P Q by (intro frac_less) simp_all
  also have "\<dots> = pow2 (bitlen p - (bitlen q - 1))"
    by (simp only: pow2_diff)
  also have "\<dots> = pow2 (?b + 1)"
    by (simp add: algebra_simps)
  finally have up: "\<bar>x\<bar> < pow2 (?b + 1)" .
  have "pow2 (bitlen p - 1) / pow2 (bitlen q) \<le> \<bar>x\<bar>"
    unfolding x using p q P Q by (intro frac_le) simp_all
  moreover have "pow2 (bitlen p - 1) / pow2 (bitlen q) = pow2 (bitlen p - 1 - bitlen q)"
    by (simp only: pow2_diff)
  moreover have "bitlen p - 1 - bitlen q = ?b - 1"
    by (simp add: algebra_simps)
  ultimately have lo: "pow2 (?b - 1) \<le> \<bar>x\<bar>"
    by simp
  show ?thesis
  proof (cases "pow2 ?b \<le> \<bar>x\<bar>")
    case True
    then have "expo x = ?b" by (simp add: expo_def pq)
    with True up show ?thesis by simp
  next
    case False
    then have "expo x = ?b - 1" by (simp add: expo_def pq)
    with False lo show ?thesis by simp
  qed
qed

lemma expo_unique:
  assumes "pow2 e \<le> \<bar>x\<bar>" and "\<bar>x\<bar> < pow2 (e + 1)"
  shows "expo x = e"
proof -
  from assms(1) have "x \<noteq> 0"
    using pow2_pos [of e] by auto
  then have b: "pow2 (expo x) \<le> \<bar>x\<bar>" "\<bar>x\<bar> < pow2 (expo x + 1)"
    using expo_bounds by simp_all
  have "\<not> e < expo x"
  proof
    assume "e < expo x"
    then have "pow2 (e + 1) \<le> pow2 (expo x)"
      by (intro pow2_mono) simp
    with b(1) assms(2) show False by simp
  qed
  moreover have "\<not> expo x < e"
  proof
    assume "expo x < e"
    then have "pow2 (expo x + 1) \<le> pow2 e"
      by (intro pow2_mono) simp
    with b(2) assms(1) show False by simp
  qed
  ultimately show ?thesis by simp
qed

lemma rne_of_int [simp]: "rne (of_int k) = k"
  by (simp add: rne_def)

lemma pow2_int: "0 \<le> d \<Longrightarrow> pow2 d = of_int (2 ^ nat d)"
  by (simp add: pow2_def)

text \<open>Every \<open>k * 2\<^sup>j\<close> with \<open>\<bar>k\<bar> \<le> 2\<^sup>5\<^sup>3\<close> is a double: rounding leaves it as it is.\<close>

lemma to_double_exact:
  assumes k: "\<bar>k\<bar> \<le> 2 ^ 53"
  shows "to_double (of_int k * pow2 j) = of_int k * pow2 j"
proof (cases "k = 0")
  case True
  then show ?thesis by (simp add: to_double_def)
next
  case False
  let ?y = "of_int k * pow2 j :: rat"
  let ?e = "expo ?y"
  from False have y0: "?y \<noteq> 0"
    using pow2_pos [of j] by simp
  have absy: "\<bar>?y\<bar> = of_int \<bar>k\<bar> * pow2 j"
    using pow2_pos [of j] by (simp add: abs_mult)
  from expo_bounds [OF y0] have lo: "pow2 ?e \<le> of_int \<bar>k\<bar> * pow2 j"
    by (simp only: absy)
  have "(of_int \<bar>k\<bar> :: rat) \<le> of_int (2 ^ 53)"
    using k by (simp only: of_int_le_iff)
  then have "of_int \<bar>k\<bar> * pow2 j \<le> pow2 53 * pow2 j"
    using pow2_pos [of j] by (simp add: pow2_def)
  from order_trans [OF lo this] have "pow2 ?e \<le> pow2 (53 + j)"
    by (simp only: pow2_add)
  then have e: "?e \<le> 53 + j"
    using pow2_strict_mono [of "53 + j" ?e] by (cases "?e \<le> 53 + j") simp_all
  have val: "to_double ?y = of_int (rne (?y / pow2 (?e - 52))) * pow2 (?e - 52)"
    using y0 by (simp add: to_double_def Let_def)
  have quot: "?y / pow2 (?e - 52) = of_int k * pow2 (j - ?e + 52)"
    by (simp add: pow2_diff pow2_add)
  show ?thesis
  proof (cases "0 \<le> j - ?e + 52")
    case True
    then have "?y / pow2 (?e - 52) = of_int (k * 2 ^ nat (j - ?e + 52))"
      by (simp add: quot pow2_int)
    then have "rne (?y / pow2 (?e - 52)) = k * 2 ^ nat (j - ?e + 52)"
      by (simp only: rne_of_int)
    then have "to_double ?y = of_int k * (pow2 (j - ?e + 52) * pow2 (?e - 52))"
      using True by (simp add: val pow2_int)
    also have "pow2 (j - ?e + 52) * pow2 (?e - 52) = pow2 j"
      by (simp flip: pow2_add)
    finally show ?thesis .
  next
    case False
    with e have d: "j - ?e + 52 = - 1"
      by simp
    then have ej: "?e = 53 + j"
      by simp
    from lo have "pow2 53 * pow2 j \<le> of_int \<bar>k\<bar> * pow2 j"
      by (simp add: ej pow2_add)
    then have "(of_int (2 ^ 53) :: rat) \<le> of_int \<bar>k\<bar>"
      using pow2_pos [of j] by (simp add: pow2_def)
    then have "2 ^ 53 \<le> \<bar>k\<bar>"
      by (simp only: of_int_le_iff)
    with k have "\<bar>k\<bar> = 2 ^ 53"
      by simp
    then obtain h where h: "k = 2 * h"
      by (cases "0 \<le> k") (auto intro: that [of "2 ^ 52"] that [of "- (2 ^ 52)"])
    have "?y / pow2 (?e - 52) = of_int k * pow2 (- 1)"
      by (simp only: quot d)
    also have "\<dots> = of_int h"
      by (simp add: h pow2_def)
    finally have "rne (?y / pow2 (?e - 52)) = h"
      by (simp only: rne_of_int)
    then have "to_double ?y = of_int h * pow2 (?e - 52)"
      by (simp only: val)
    also have "?e - 52 = j + 1"
      using ej by simp
    also have "of_int h * pow2 (j + 1) = ?y"
      by (simp add: h pow2_add pow2_1)
    finally show ?thesis .
  qed
qed

lemma rne_ge: "of_int a \<le> x \<Longrightarrow> a \<le> rne x"
proof -
  assume "of_int a \<le> x"
  then have "a \<le> \<lfloor>x\<rfloor>"
    by (simp add: le_floor_iff)
  then show ?thesis
    by (simp add: rne_def Let_def)
qed

lemma rne_le: "x \<le> of_int b \<Longrightarrow> rne x \<le> b"
proof -
  assume b: "x \<le> of_int b"
  have f: "\<lfloor>x\<rfloor> \<le> b"
    using floor_mono [OF b] by simp
  show ?thesis
  proof (cases "x = of_int \<lfloor>x\<rfloor>")
    case True
    then have "rne x = \<lfloor>x\<rfloor>"
      by (simp add: rne_def)
    with f show ?thesis by simp
  next
    case False
    then have "of_int \<lfloor>x\<rfloor> \<noteq> x"
      by (rule not_sym)
    then have "of_int \<lfloor>x\<rfloor> < x"
      using of_int_floor_le [of x] by (rule order.not_eq_order_implies_strict)
    then have "(of_int \<lfloor>x\<rfloor> :: rat) < of_int b"
      using b by (rule less_le_trans)
    then have "\<lfloor>x\<rfloor> < b"
      by (simp only: of_int_less_iff)
    then show ?thesis
      by (simp add: rne_def Let_def)
  qed
qed

lemma to_double_form:
  "\<exists>k j. \<bar>k\<bar> \<le> 2 ^ 53 \<and> to_double x = of_int k * pow2 j"
proof (cases "x = 0")
  case True
  then show ?thesis
    by (intro exI [of _ 0]) (simp add: to_double_def)
next
  case False
  let ?u = "pow2 (expo x - 52)"
  define t where "t = x / ?u"
  have "\<bar>x\<bar> < pow2 (expo x + 1)"
    using expo_bounds [OF False] by simp
  also have "pow2 (expo x + 1) = pow2 (53 + (expo x - 52))"
    by (simp add: algebra_simps)
  also have "\<dots> = pow2 53 * ?u"
    by (simp only: pow2_add)
  finally have "\<bar>t\<bar> < pow2 53"
    by (simp add: t_def abs_divide pos_divide_less_eq)
  moreover have "pow2 53 = of_int (2 ^ 53)"
    by (simp add: pow2_def)
  ultimately have "t \<le> of_int (2 ^ 53)" "of_int (- (2 ^ 53)) \<le> t"
    by (simp_all add: abs_less_iff less_imp_le)
  then have "rne t \<le> 2 ^ 53" "- (2 ^ 53) \<le> rne t"
    by (simp_all only: rne_le rne_ge)
  then have "\<bar>rne t\<bar> \<le> 2 ^ 53"
    by (simp add: abs_le_iff)
  moreover have "to_double x = of_int (rne t) * ?u"
    using False by (simp add: to_double_def Let_def t_def)
  ultimately show ?thesis
    by blast
qed

lemma to_double_idem: "to_double (to_double x) = to_double x"
  using to_double_form [of x] to_double_exact by auto

lemma is_double_to_double [simp]: "is_double (to_double x)"
  by (simp add: is_double_def to_double_idem)

lemma to_double_of_int: "\<bar>k\<bar> \<le> 2 ^ 53 \<Longrightarrow> to_double (of_int k) = of_int k"
  using to_double_exact [of k 0] by (simp add: pow2_def)

lemma to_double_of_nat: "n \<le> 2 ^ 53 \<Longrightarrow> to_double (of_nat n) = of_nat n"
  using to_double_of_int [of "int n"] by (simp add: of_nat_le_iff [of n "2 ^ 53", where 'a = int, simplified])

lemma to_double_nonneg: "0 \<le> x \<Longrightarrow> 0 \<le> to_double x"
proof (cases "x = 0")
  case True
  then show ?thesis by (simp add: to_double_def)
next
  case False
  assume "0 \<le> x"
  then have "of_int 0 \<le> x / pow2 (expo x - 52)"
    using pow2_pos [of "expo x - 52"] by (simp add: zero_le_divide_iff less_imp_le)
  then have "0 \<le> rne (x / pow2 (expo x - 52))"
    by (rule rne_ge)
  then show ?thesis
    using False by (simp add: to_double_def Let_def zero_le_mult_iff)
qed

lemma rne_error: "\<bar>of_int (rne x) - x\<bar> \<le> 1 / 2"
proof -
  have "of_int \<lfloor>x\<rfloor> \<le> x" "x < of_int \<lfloor>x\<rfloor> + 1"
    by linarith+
  then show ?thesis
    by (auto simp add: rne_def Let_def abs_le_iff)
qed

text \<open>The rounded value is within half a unit in the last place.\<close>

lemma to_double_error: "\<bar>to_double x - x\<bar> \<le> pow2 (expo x - 53)"
proof (cases "x = 0")
  case True
  then show ?thesis by (simp add: to_double_def)
next
  case False
  let ?u = "pow2 (expo x - 52)"
  have "\<bar>to_double x - x\<bar> = \<bar>of_int (rne (x / ?u)) - x / ?u\<bar> * ?u"
  proof -
    have "to_double x - x = (of_int (rne (x / ?u)) - x / ?u) * ?u"
      using False by (simp add: to_double_def Let_def left_diff_distrib)
    then show ?thesis
      by (simp only: abs_mult pow2_abs)
  qed
  also have "\<dots> \<le> 1 / 2 * ?u"
    by (intro mult_right_mono rne_error) simp
  also have "\<dots> = pow2 (expo x - 53)"
    using pow2_add [of "expo x - 53" 1] by (simp add: pow2_1)
  finally show ?thesis .
qed


lemma rne_cases:
  "rne m = \<lfloor>m\<rfloor> \<and> m - of_int \<lfloor>m\<rfloor> \<le> 1 / 2
   \<or> rne m = \<lfloor>m\<rfloor> + 1 \<and> 1 / 2 \<le> m - of_int \<lfloor>m\<rfloor>"
  by (auto simp add: rne_def Let_def)

lemma rne_nearest: "\<bar>of_int (rne m) - m\<bar> \<le> \<bar>of_int n - m\<bar>"
proof -
  let ?f = "\<lfloor>m\<rfloor>"
  have f: "of_int ?f \<le> m" "m < of_int ?f + 1"
    by linarith+
  have n: "(of_int n :: rat) \<le> of_int ?f \<or> (of_int ?f :: rat) + 1 \<le> of_int n"
  proof (cases "n \<le> ?f")
    case True
    then show ?thesis by simp
  next
    case False
    then have "?f + 1 \<le> n" by simp
    then have "(of_int (?f + 1) :: rat) \<le> of_int n" by (simp only: of_int_le_iff)
    then show ?thesis by simp
  qed
  from rne_cases [of m] show ?thesis
  proof (elim disjE conjE)
    assume r: "rne m = ?f" and h: "m - of_int ?f \<le> 1 / 2"
    from f n h have "\<bar>of_int ?f - m\<bar> \<le> \<bar>of_int n - m\<bar>"
      by linarith
    then show ?thesis by (simp only: r)
  next
    assume r: "rne m = ?f + 1" and h: "1 / 2 \<le> m - of_int ?f"
    from f n h have "\<bar>of_int ?f + 1 - m\<bar> \<le> \<bar>of_int n - m\<bar>"
      by linarith
    then show ?thesis by (simp add: r)
  qed
qed

text \<open>A double is a multiple of the unit in the last place of its binade.\<close>

lemma is_double_multiple:
  assumes "is_double y"
  shows "y = of_int (rne (y / pow2 (expo y - 52))) * pow2 (expo y - 52)"
  using assms by (cases "y = 0") (simp_all add: is_double_def to_double_def Let_def rne_def)

lemma pow2_is_double: "to_double (pow2 j) = pow2 j"
  using to_double_exact [of 1 j] by simp

text \<open>No double is nearer to \<open>x\<close> than \<open>to_double x\<close>.\<close>

lemma to_double_nearest:
  assumes y: "is_double y"
  shows "\<bar>to_double x - x\<bar> \<le> \<bar>y - x\<bar>"
proof (cases "x = 0")
  case True
  then show ?thesis by (simp add: to_double_def)
next
  case False
  let ?e = "expo x"
  let ?u = "pow2 (?e - 52)"
  let ?m = "x / ?u"
  have d: "to_double x = of_int (rne ?m) * ?u"
    using False by (simp add: to_double_def Let_def)
  have near: "\<bar>to_double x - x\<bar> \<le> \<bar>of_int n * ?u - x\<bar>" for n
  proof -
    have "\<bar>to_double x - x\<bar> = \<bar>of_int (rne ?m) - ?m\<bar> * ?u"
    proof -
      have "to_double x - x = (of_int (rne ?m) - ?m) * ?u"
        by (simp add: d left_diff_distrib)
      then show ?thesis
        by (simp only: abs_mult pow2_abs)
    qed
    also have "\<dots> \<le> \<bar>of_int n - ?m\<bar> * ?u"
      by (intro mult_right_mono rne_nearest) simp
    also have "\<dots> = \<bar>of_int n * ?u - x\<bar>"
    proof -
      have "of_int n * ?u - x = (of_int n - ?m) * ?u"
        by (simp add: left_diff_distrib)
      then show ?thesis
        by (simp only: abs_mult pow2_abs)
    qed
    finally show ?thesis .
  qed
  have b: "pow2 ?e \<le> \<bar>x\<bar>" "\<bar>x\<bar> < pow2 (?e + 1)"
    using expo_bounds [OF False] by simp_all
  have "pow2 52 = of_int (2 ^ 52)" "pow2 53 = of_int (2 ^ 53)"
    by (simp_all add: pow2_def)
  moreover have "pow2 ?e = pow2 (52 + (?e - 52))" "pow2 (?e + 1) = pow2 (53 + (?e - 52))"
    by (simp_all add: algebra_simps)
  ultimately have lo: "pow2 ?e = of_int (2 ^ 52) * ?u"
    and hi: "pow2 (?e + 1) = of_int (2 ^ 53) * ?u"
    by (simp_all only: pow2_add)
  show ?thesis
  proof (cases "pow2 ?e < \<bar>y\<bar> \<and> \<bar>y\<bar> < pow2 (?e + 1)")
    case True
    then have "expo y = ?e"
      by (intro expo_unique) simp_all
    with is_double_multiple [OF y] have "y = of_int (rne (y / ?u)) * ?u"
      by simp
    with near [of "rne (y / ?u)"] show ?thesis
      by simp
  next
    case out: False
    show ?thesis
    proof (cases "0 < x")
      case True
      with b have x: "pow2 ?e \<le> x" "x < pow2 (?e + 1)"
        by simp_all
      have "y \<le> pow2 ?e \<or> pow2 (?e + 1) \<le> y"
      proof (cases "0 \<le> y")
        case True
        with out show ?thesis by (auto simp add: not_less)
      next
        case False
        with pow2_pos [of ?e] show ?thesis by linarith
      qed
      then consider "y \<le> pow2 ?e" | "pow2 (?e + 1) \<le> y"
        by blast
      then show ?thesis
      proof cases
        case 1
        with x have "\<bar>pow2 ?e - x\<bar> \<le> \<bar>y - x\<bar>"
          by linarith
        with near [of "2 ^ 52"] lo show ?thesis
          by simp
      next
        case 2
        with x have "\<bar>pow2 (?e + 1) - x\<bar> \<le> \<bar>y - x\<bar>"
          by linarith
        with near [of "2 ^ 53"] hi show ?thesis
          by simp
      qed
    next
      case False
      with \<open>x \<noteq> 0\<close> b have x: "x \<le> - pow2 ?e" "- pow2 (?e + 1) < x"
        by (simp_all add: abs_if split: if_splits)
      have "- pow2 ?e \<le> y \<or> y \<le> - pow2 (?e + 1)"
      proof (cases "y \<le> 0")
        case True
        with out show ?thesis by (auto simp add: not_less)
      next
        case False
        with pow2_pos [of ?e] show ?thesis by linarith
      qed
      then consider "- pow2 ?e \<le> y" | "y \<le> - pow2 (?e + 1)"
        by blast
      then show ?thesis
      proof cases
        case 1
        with x have "\<bar>- pow2 ?e - x\<bar> \<le> \<bar>y - x\<bar>"
          by linarith
        with near [of "- (2 ^ 52)"] lo show ?thesis
          by simp
      next
        case 2
        with x have "\<bar>- pow2 (?e + 1) - x\<bar> \<le> \<bar>y - x\<bar>"
          by linarith
        with near [of "- (2 ^ 53)"] hi show ?thesis
          by simp
      qed
    qed
  qed
qed

text \<open>Evaluating a rounding, given the exponent.\<close>

lemma to_double_eval:
  "pow2 e \<le> \<bar>x\<bar> \<Longrightarrow> \<bar>x\<bar> < pow2 (e + 1) \<Longrightarrow>
     to_double x = of_int (rne (x / pow2 (e - 52))) * pow2 (e - 52)"
  using expo_unique [of e x] pow2_pos [of e] by (auto simp add: to_double_def Let_def)

lemma floor_rat_numeral [simp]:
  "\<lfloor>numeral a / numeral b :: rat\<rfloor> = numeral a div numeral b"
  "\<lfloor>- numeral a / numeral b :: rat\<rfloor> = - numeral a div numeral b"
  using floor_divide_of_int_eq [of "numeral a" "numeral b", where 'a = rat]
    floor_divide_of_int_eq [of "- numeral a" "numeral b", where 'a = rat]
  by simp_all

lemma to_double_0 [simp]: "to_double 0 = 0"
  by (simp add: to_double_def)


lemma to_double_1 [simp]: "to_double 1 = 1"
  using to_double_of_int [of 1] by simp


text \<open>The conversions and operations on 32 bit values are exact.\<close>

lemma of_uint_eq: "of_uint w = of_nat (unat w)"
proof -
  have "unat w < 2 ^ 32"
    using unsigned_less [of w, where 'a = nat] by simp
  then have "unat w \<le> 2 ^ 53"
    by simp
  then show ?thesis
    by (simp only: of_uint_def to_double_of_nat)
qed

lemma to_double_numeral:
  "(numeral n :: int) \<le> 2 ^ 53 \<Longrightarrow> to_double (numeral n) = numeral n"
  using to_double_of_int [of "numeral n"] by simp

lemma of_uint_numeral: "of_uint (numeral n) = of_nat (unat (numeral n :: 32 word))"
  by (rule of_uint_eq)

lemma dsub_of_uint:
  "dsub (of_uint a) (of_uint b) = of_nat (unat a) - of_nat (unat b)"
proof -
  have "uint a < 4294967296" "uint b < 4294967296"
    using uint_lt2p [of a] uint_lt2p [of b] by simp_all
  then have "\<bar>uint a - uint b\<bar> \<le> 9007199254740992"
    using uint_ge_0 [of a] uint_ge_0 [of b] by linarith
  then have "\<bar>uint a - uint b\<bar> \<le> 2 ^ 53"
    by simp
  then have "to_double (of_int (uint a - uint b)) = of_int (uint a - uint b)"
    by (rule to_double_of_int)
  then show ?thesis
    by (simp add: dsub_def of_uint_eq)
qed

lemma dmul_of_uint_1000: "dmul (of_uint m) 1000 = of_nat (unat m) * 1000"
proof -
  have "unat m < 2 ^ 32"
    using unsigned_less [of m, where 'a = nat] by simp
  then have "unat m * 1000 \<le> 2 ^ 53"
    by simp
  then have "to_double (of_nat (unat m * 1000)) = of_nat (unat m * 1000)"
    by (rule to_double_of_nat)
  then show ?thesis
    by (simp add: dmul_def of_uint_eq)
qed


subsection \<open>Roundings that the examples need\<close>

lemma round_9_1000: "to_double (9 / 1000) = 5188146770730811 / 576460752303423488"
  by (subst to_double_eval [where e = "- 7"]) (simp_all add: pow2_def rne_def Let_def)

lemma round_1_100: "to_double (1 / 100) = 5764607523034235 / 576460752303423488"
  by (subst to_double_eval [where e = "- 7"]) (simp_all add: pow2_def rne_def Let_def)

lemma round_1001_1000: "to_double (1001 / 1000) = 2254051613498933 / 2251799813685248"
  by (subst to_double_eval [where e = 0]) (simp_all add: pow2_def rne_def Let_def)

lemma round_1001: "to_double (281756451687366625 / 281474976710656) = 8804889115230207 / 8796093022208"
  by (subst to_double_eval [where e = 9]) (simp_all add: pow2_def rne_def Let_def)

lemma round_1_1000: "to_double (1 / 1000) = 1152921504606847 / 1152921504606846976"
  by (subst to_double_eval [where e = "- 10"]) (simp_all add: pow2_def rne_def Let_def)

lemma round_9_1000_again:
  "to_double (5188146770730811 / 576460752303423488) = 5188146770730811 / 576460752303423488"
  by (subst to_double_eval [where e = "- 7"]) (simp_all add: pow2_def rne_def Let_def)

lemma round_sum: "to_double (11529215046068469 / 1152921504606846976) = 2882303761517117 / 288230376151711744"
  by (subst to_double_eval [where e = "- 7"]) (simp_all add: pow2_def rne_def Let_def)

lemma round_10: "to_double (360287970189639625 / 36028797018963968) = 5629499534213119 / 562949953421312"
  by (subst to_double_eval [where e = 3]) (simp_all add: pow2_def rne_def Let_def)

lemma round_1_200: "to_double (1 / 200) = 5764607523034235 / 1152921504606846976"
  by (subst to_double_eval [where e = "- 8"]) (simp_all add: pow2_def rne_def Let_def)

lemma round_5: "to_double (720575940379279375 / 144115188075855872) = 5"
  by (subst to_double_eval [where e = 2]) (simp_all add: pow2_def rne_def Let_def)


lemma round_018:
  "to_double (5188146770730811 / 288230376151711744) = 5188146770730811 / 288230376151711744"
  by (subst to_double_eval [where e = "- 6"]) (simp_all add: pow2_def rne_def Let_def)

lemma round_028:
  "to_double (16140901064495857 / 576460752303423488) = 1008806316530991 / 36028797018963968"
  by (subst to_double_eval [where e = "- 6"]) (simp_all add: pow2_def rne_def Let_def)

section \<open>The parameters\<close>

lemma setParams_holdOffFix:
  "holdOffFix (setParams mb mn mx s) = to_double (of_nat (unat mn) / 1000)"
  by (simp add: setParams_def Let_def ddiv_def of_uint_eq)

lemma setParams_holdOffVar:
  "holdOffVar (setParams mb mn mx s) =
     (if mb = 0 then holdOffVar s
      else if mx = 0 then 0
      else to_double ((of_nat (unat mx) - of_nat (unat mn)) / (of_nat (unat mb) * 1000)))"
  by (simp add: setParams_def Let_def ddiv_def dsub_of_uint dmul_of_uint_1000)

lemma setParams_maxBatchSize: "maxBatchSize (setParams mb mn mx s) = mb"
  by (simp add: setParams_def Let_def)

text \<open>
  What \<^verbatim>\<open>setParams\<close> stores: the limit; \<open>minHoldOff / 1000\<close> in \<open>holdOffFix\<close>; and in
  \<open>holdOffVar\<close> the quotient \<open>(maxHoldOff - minHoldOff) / (maxRequestsPerBatch * 1000)\<close> when
  the limit and \<open>maxHoldOff\<close> are not zero, and zero when the limit is not zero and
  \<open>maxHoldOff\<close> is. Each quotient is the exact one, rounded to double once. When the limit
  is zero the assignment to \<open>holdOffVar\<close> is skipped.
\<close>

lemma setParams_stores:
  "maxBatchSize (setParams mb mn mx s) = mb
   \<and> holdOffFix (setParams mb mn mx s) = to_double (of_nat (unat mn) / 1000)
   \<and> holdOffVar (setParams mb mn mx s) =
       (if mb = 0 then holdOffVar s
        else if mx = 0 then 0
        else to_double ((of_nat (unat mx) - of_nat (unat mn)) / (of_nat (unat mb) * 1000)))"
  by (simp only: setParams_maxBatchSize setParams_holdOffFix setParams_holdOffVar)

lemma init_holdOffVar [simp]:
  "holdOffVar (RequestQueueBatcher mb mn mx) =
     (if mb = 0 \<or> mx = 0 then 0
      else to_double ((of_nat (unat mx) - of_nat (unat mn)) / (of_nat (unat mb) * 1000)))"
  by (simp add: RequestQueueBatcher_def setParams_holdOffVar)

lemma init_holdOffFix [simp]:
  "holdOffFix (RequestQueueBatcher mb mn mx) = to_double (of_nat (unat mn) / 1000)"
  by (simp add: RequestQueueBatcher_def setParams_holdOffFix)

lemma init_maxBatchSize [simp]: "maxBatchSize (RequestQueueBatcher mb mn mx) = mb"
  by (simp add: RequestQueueBatcher_def setParams_maxBatchSize)

lemma min_1001: "minHoldOff (RequestQueueBatcher 1 1001 2000 :: nat batcher) = Some 1000"
  by (simp add: minHoldOff_def dmul_def round_1001_1000 round_1001 to_uint_def)

lemma max_10: "maxHoldOff (RequestQueueBatcher 1 1 10 :: nat batcher) = Some 9"
  by (simp add: maxHoldOff_def dmul_def dadd_def of_uint_eq round_1_1000 round_9_1000
      round_9_1000_again round_sum round_10 to_uint_def)

lemma capped_eq:
  "capped = \<lparr>queue = (\<lambda>_. [])(menuPriorityLOW := [1, 2, 3, 4, 5]), maxBatchSize = 2,
     holdOffVar = 0, holdOffFix = 0, workToDo = True, workerShutdown = False\<rparr>"
  by (simp add: capped_def pushRequests_def RequestQueueBatcher_def setParams_def ddiv_def
      of_uint_eq)

lemma single_eq:
  "single = \<lparr>queue = (\<lambda>_. [])(menuPriorityLOW := [7]), maxBatchSize = 1,
     holdOffVar = 5188146770730811 / 576460752303423488,
     holdOffFix = 1152921504606847 / 1152921504606846976,
     workToDo = True, workerShutdown = False\<rparr>"
  by (simp add: single_def pushRequest_def RequestQueueBatcher_def setParams_def ddiv_def
      dsub_def dmul_def of_uint_eq to_double_numeral round_9_1000 round_1_1000)

lemmas pass_defs = cycle_def cycle_snapshot_def gather_def collect_def others_def quiet_def Let_def


lemma stale_eq:
  "stale = \<lparr>queue = (\<lambda>_. [])(menuPriorityLOW := [1, 2]), maxBatchSize = 0,
     holdOffVar = 5188146770730811 / 576460752303423488, holdOffFix = 0,
     workToDo = True, workerShutdown = False\<rparr>"
  by (simp add: stale_def pushRequests_def RequestQueueBatcher_def setParams_def ddiv_def
      dsub_def dmul_def of_uint_eq to_double_numeral round_9_1000)

text \<open>
  C3 fails on the code. For a limit that is not zero \<^verbatim>\<open>setParams\<close> stores what the claim says,
  and \<open>holdOffFix\<close> always. But a call with the limit zero should leave zero in \<open>holdOffVar\<close>,
  as the constructor does for the same arguments, and does not: after the parameters
  (10, 10, 100), the call \<^verbatim>\<open>setParams(0, 0, 0)\<close> leaves the slope 0.009 there. Both accessors
  then report a hold-off of zero, and the worker holds off 0.018 seconds after a batch of
  two requests.
\<close>

theorem setParams_stale:
  "holdOffVar (setParams 0 0 0 (RequestQueueBatcher 10 10 100 :: nat batcher))
     = 5188146770730811 / 576460752303423488
   \<and> holdOffVar (setParams 0 0 0 (RequestQueueBatcher 10 10 100 :: nat batcher)) \<noteq> 0
   \<and> holdOffVar (RequestQueueBatcher 0 0 0 :: nat batcher) = 0
   \<and> holdOffFix (setParams 0 0 0 (RequestQueueBatcher 10 10 100 :: nat batcher)) = 0
   \<and> minHoldOff stale = Some 0
   \<and> maxHoldOff stale = Some 0
   \<and> collected (fst (cycle id quiet stale)) = [1, 2]
   \<and> sleep (fst (cycle id quiet stale)) = Some (5188146770730811 / 288230376151711744)"
proof -
  have "sleep (fst (cycle id quiet stale)) = Some (5188146770730811 / 288230376151711744)"
    by (simp add: stale_eq pass_defs dadd_def dmul_def of_size_def to_double_numeral round_018)
  moreover have "collected (fst (cycle id quiet stale)) = [1, 2]"
    by (simp add: stale_eq pass_defs)
  moreover have "minHoldOff stale = Some 0" "maxHoldOff stale = Some 0"
    by (simp_all add: stale_eq minHoldOff_def maxHoldOff_def dadd_def dmul_def of_uint_eq
        to_uint_def)
  ultimately show ?thesis
    by (simp add: setParams_holdOffVar setParams_holdOffFix round_9_1000)
qed

text \<open>
  C6 fails on the code: the accessors multiply the stored seconds by 1000 in double
  arithmetic and truncate, and the product can fall just below the integer. With
  \<^verbatim>\<open>minHoldOff = 1001\<close> the accessor \<^verbatim>\<open>minHoldOff()\<close> returns 1000; with parameters
  \<^verbatim>\<open>(1, 1, 10)\<close> the accessor \<^verbatim>\<open>maxHoldOff()\<close> returns 9, and the hold-off after a batch
  of size \<open>maxBatchSize\<close> is the double below 0.01, not \<open>10 / 1000\<close>.
\<close>

theorem holdOff_roundtrip:
  "minHoldOff (RequestQueueBatcher 1 1001 2000 :: nat batcher) = Some 1000
   \<and> maxHoldOff (RequestQueueBatcher 1 1 10 :: nat batcher) = Some 9
   \<and> length (collected (fst (cycle id quiet single))) = unat (maxBatchSize single)
   \<and> holdOff (fst (cycle id quiet single)) = 2882303761517117 / 288230376151711744
   \<and> ddiv (of_uint 10) 1000 = 5764607523034235 / 576460752303423488"
proof -
  have "holdOff (fst (cycle id quiet single)) = 2882303761517117 / 288230376151711744"
    by (simp add: single_eq pass_defs dadd_def dmul_def of_size_def round_9_1000_again round_sum)
  moreover have "length (collected (fst (cycle id quiet single))) = unat (maxBatchSize single)"
    by (simp add: single_eq pass_defs)
  moreover have "ddiv (of_uint 10) 1000 = 5764607523034235 / 576460752303423488"
    by (simp add: ddiv_def of_uint_eq round_1_100)
  ultimately show ?thesis
    using min_1001 max_10 by blast
qed


lemma dmul_0_right: "dmul v 0 = 0"
  by (simp add: dmul_def)

lemma dadd_0_right: "is_double f \<Longrightarrow> dadd f 0 = f"
  by (simp add: dadd_def is_double_def)

text \<open>
  C10: when the stored limit is zero, \<^verbatim>\<open>maxHoldOff()\<close> returns what \<^verbatim>\<open>minHoldOff()\<close> returns,
  whatever \<open>holdOffVar\<close> holds: the variable part is multiplied by the limit. (\<open>holdOffFix\<close>
  is a double variable, so its value is a double.)
\<close>

theorem maxHoldOff_unlimited:
  "maxBatchSize s = 0 \<Longrightarrow> is_double (holdOffFix s) \<Longrightarrow> maxHoldOff s = minHoldOff s"
  by (simp add: maxHoldOff_def minHoldOff_def of_uint_eq dmul_0_right dadd_0_right)

theorem maxHoldOff_unlimited_witness:
  "maxBatchSize reset = 0 \<and> is_double (holdOffFix reset)
   \<and> holdOffVar reset = 5188146770730811 / 576460752303423488
   \<and> maxHoldOff reset = minHoldOff reset \<and> minHoldOff reset = Some 5"
proof -
  have a: "maxBatchSize reset = 0"
    by (simp add: reset_def setParams_maxBatchSize)
  have b: "is_double (holdOffFix reset)"
    by (simp add: reset_def setParams_holdOffFix)
  have c: "holdOffVar reset = 5188146770730811 / 576460752303423488"
    by (simp add: reset_def setParams_holdOffVar round_9_1000)
  have d: "minHoldOff reset = Some 5"
    by (simp add: reset_def minHoldOff_def setParams_holdOffFix dmul_def round_1_200 round_5
        to_uint_def)
  from maxHoldOff_unlimited [OF a b] a b c d show ?thesis
    by blast
qed

text \<open>\<^verbatim>\<open>setParams\<close>, and so the constructor, leaves a double in \<open>holdOffFix\<close>.\<close>

lemma setParams_is_double: "is_double (holdOffFix (setParams mb mn mx s))"
  by (simp add: setParams_holdOffFix)


section \<open>The worker collects by priority, in queue order, up to the limit\<close>

lemma drain_eq:
  "drain mx batch q =
     (batch @ take (taken mx (length batch) q) q, drop (taken mx (length batch) q) q)"
proof (induction q arbitrary: batch)
  case Nil
  then show ?case by (simp add: taken_def)
next
  case (Cons x q)
  show ?case
  proof (cases "mx = 0 \<or> length batch < mx")
    case True
    then show ?thesis
      by (auto simp: Cons.IH taken_def Suc_diff_Suc min_def take_Cons' drop_Cons' split: if_splits)
  next
    case False
    then show ?thesis by (simp add: taken_def)
  qed
qed

lemma taken_full: "mx \<noteq> 0 \<Longrightarrow> mx \<le> n \<Longrightarrow> taken mx n q = 0"
  by (simp add: taken_def)

lemma taken_le: "taken mx n q \<le> length q"
  by (simp add: taken_def)

lemma taken_cap: "mx \<noteq> 0 \<Longrightarrow> n \<le> mx \<Longrightarrow> n + taken mx n q \<le> mx"
  by (simp add: taken_def)

lemma collect_fst:
  "fst (collect mx env prio bs) =
     fst bs @
     take (taken mx (length (fst bs)) (queue (others (env (BeforeLock prio)) (snd bs)) prio))
       (queue (others (env (BeforeLock prio)) (snd bs)) prio)"
  by (cases bs) (simp add: collect_def Let_def drain_eq taken_full split: prod.splits)

lemma collect_length_le:
  "mx \<noteq> 0 \<Longrightarrow> length (fst bs) \<le> mx \<Longrightarrow> length (fst (collect mx env prio bs)) \<le> mx"
  by (simp add: collect_fst taken_le taken_cap)

lemma collect_full:
  "mx \<noteq> 0 \<Longrightarrow> mx \<le> length batch \<Longrightarrow> fst (collect mx env prio (batch, st)) = batch"
  by (simp add: collect_fst taken_full)

lemma gather_unfold:
  "gather mx env s =
     collect mx env menuPriorityLOW
       (collect mx env menuPriorityMID (collect mx env menuPriorityHIGH ([], s)))"
  by (simp add: gather_def)

lemma gather_length_le: "mx \<noteq> 0 \<Longrightarrow> length (fst (gather mx env s)) \<le> mx"
  by (simp add: gather_unfold collect_length_le)

lemma cycle_collected:
  "collected (fst (cycle consumer env s)) =
     fst (gather (unat (maxBatchSize (others (env BeforeParams) s))) env
            (others (env BeforeParams) s))"
  by (simp add: cycle_def Let_def split: prod.splits)

lemma at_lock_HIGH:
  "at_lock env s menuPriorityHIGH =
     others (env (BeforeLock menuPriorityHIGH)) (others (env BeforeParams) s)"
  by (simp add: at_lock_def)

lemma at_lock_MID:
  "at_lock env s menuPriorityMID =
     others (env (BeforeLock menuPriorityMID))
       (snd (collect (unat (maxBatchSize (others (env BeforeParams) s))) env menuPriorityHIGH
               ([], others (env BeforeParams) s)))"
  by (simp add: at_lock_def Let_def)

lemma at_lock_LOW:
  "at_lock env s menuPriorityLOW =
     others (env (BeforeLock menuPriorityLOW))
       (snd (collect (unat (maxBatchSize (others (env BeforeParams) s))) env menuPriorityMID
              (collect (unat (maxBatchSize (others (env BeforeParams) s))) env menuPriorityHIGH
                 ([], others (env BeforeParams) s))))"
  by (simp add: at_lock_def Let_def)

lemma others_quiet [simp]: "others (quiet pt) s = s"
  by (simp add: quiet_def others_def)

lemma collect_quiet_queue_other:
  "prio' \<noteq> prio \<Longrightarrow> queue (snd (collect mx quiet prio bs)) prio' = queue (snd bs) prio'"
  by (cases bs) (simp add: collect_def Let_def split: prod.splits)

lemma at_lock_quiet: "queue (at_lock quiet s prio) prio = queue s prio"
  by (cases prio) (simp_all add: at_lock_HIGH at_lock_MID at_lock_LOW collect_quiet_queue_other)

text \<open>
  C1: the batch of every pass is a front part of the HIGH queue, followed by a front part of
  the MID queue, followed by a front part of the LOW queue, each queue taken as the worker
  finds it when it locks it, whatever other threads do in between; the number taken from a
  queue is what the limit leaves. With no other thread interfering these are the queues of
  the state in which the pass starts. \<^verbatim>\<open>pushRequest\<close> appends at the back of the queue of its
  priority, so the front of a queue holds the requests pushed first.
\<close>

theorem batch_order:
  "collected (fst (cycle consumer env s)) =
     (let mx = unat (maxBatchSize (others (env BeforeParams) s));
          qH = queue (at_lock env s menuPriorityHIGH) menuPriorityHIGH;
          qM = queue (at_lock env s menuPriorityMID) menuPriorityMID;
          qL = queue (at_lock env s menuPriorityLOW) menuPriorityLOW;
          kH = taken mx 0 qH;
          kM = taken mx kH qM;
          kL = taken mx (kH + kM) qL
      in take kH qH @ take kM qM @ take kL qL)
   \<and> queue (at_lock quiet s prio) prio = queue s prio
   \<and> queue (pushRequest cargo prio s) prio = queue s prio @ [cargo]"
proof -
  let ?s0 = "others (env BeforeParams) s"
  let ?mx = "unat (maxBatchSize ?s0)"
  let ?c1 = "collect ?mx env menuPriorityHIGH ([], ?s0)"
  let ?c2 = "collect ?mx env menuPriorityMID ?c1"
  let ?c3 = "collect ?mx env menuPriorityLOW ?c2"
  let ?qH = "queue (at_lock env s menuPriorityHIGH) menuPriorityHIGH"
  let ?qM = "queue (at_lock env s menuPriorityMID) menuPriorityMID"
  let ?qL = "queue (at_lock env s menuPriorityLOW) menuPriorityLOW"
  have b1: "fst ?c1 = take (taken ?mx 0 ?qH) ?qH"
    by (simp add: collect_fst at_lock_HIGH)
  have l1: "length (fst ?c1) = taken ?mx 0 ?qH"
    by (simp add: b1 taken_le)
  have b2: "fst ?c2 = fst ?c1 @ take (taken ?mx (taken ?mx 0 ?qH) ?qM) ?qM"
    by (subst collect_fst) (simp add: l1 at_lock_MID)
  have l2: "length (fst ?c2) = taken ?mx 0 ?qH + taken ?mx (taken ?mx 0 ?qH) ?qM"
    by (simp add: b2 l1 taken_le)
  have b3: "fst ?c3 = fst ?c2 @
      take (taken ?mx (taken ?mx 0 ?qH + taken ?mx (taken ?mx 0 ?qH) ?qM) ?qL) ?qL"
    by (subst collect_fst) (simp add: l2 at_lock_LOW)
  have "collected (fst (cycle consumer env s)) = fst ?c3"
    by (simp add: cycle_collected gather_unfold)
  then have "collected (fst (cycle consumer env s)) =
      take (taken ?mx 0 ?qH) ?qH @ take (taken ?mx (taken ?mx 0 ?qH) ?qM) ?qM @
      take (taken ?mx (taken ?mx 0 ?qH + taken ?mx (taken ?mx 0 ?qH) ?qM) ?qL) ?qL"
    by (simp add: b3 b2 b1)
  then show ?thesis
    by (simp add: Let_def at_lock_quiet pushRequest_def)
qed

lemma mixed_eq:
  "queue mixed = (\<lambda>_. [])(menuPriorityLOW := [1, 2, 3], menuPriorityMID := [4, 5],
     menuPriorityHIGH := [6])"
  "maxBatchSize mixed = 10"
  by (simp_all add: mixed_def pushRequest_def pushRequests_def RequestQueueBatcher_def
      setParams_def)

theorem batch_order_witness:
  "collected (fst (cycle id quiet mixed)) = [6, 4, 5, 1, 2, 3]
   \<and> queue (pushRequest 7 menuPriorityMID mixed) menuPriorityMID = [4, 5, 7]"
  using batch_order [of id quiet mixed menuPriorityMID 7]
  by (simp add: at_lock_quiet mixed_eq taken_def Let_def)

text \<open>
  C2: when the limit read at the start of a pass is not zero, the batch of the pass has at
  most that many requests. At every priority the batch stays within the limit, and a batch
  that has reached the limit gets nothing more.
\<close>

theorem batch_size_cap:
  "mx = unat (maxBatchSize (others (env BeforeParams) s)) \<Longrightarrow> mx \<noteq> 0 \<Longrightarrow>
     length (collected (fst (cycle consumer env s))) \<le> mx
     \<and> (\<forall>prio batch st. length batch \<le> mx \<longrightarrow>
            length (fst (collect mx env prio (batch, st))) \<le> mx)
     \<and> (\<forall>prio batch st. length batch = mx \<longrightarrow>
            fst (collect mx env prio (batch, st)) = batch)"
  using collect_length_le [of mx "(batch, st)" env prio for batch st prio]
  by (simp add: cycle_collected gather_length_le collect_full)

theorem batch_size_cap_witness:
  "unat (maxBatchSize (others (quiet BeforeParams) capped)) = 2
   \<and> length (collected (fst (cycle id quiet capped))) \<le> 2
   \<and> collected (fst (cycle id quiet capped)) = [1, 2]
   \<and> length (fst (collect 2 quiet menuPriorityLOW ([1, 2], capped))) \<le> 2
   \<and> fst (collect 2 quiet menuPriorityLOW ([1, 2], capped)) = [1, 2]"
proof -
  have a: "(2::nat) = unat (maxBatchSize (others (quiet BeforeParams) capped))"
    by (simp add: capped_eq)
  have b: "collected (fst (cycle id quiet capped)) = [1, 2]"
    by (simp add: capped_eq pass_defs)
  from batch_size_cap [of 2 quiet capped id] a b show ?thesis
    by simp
qed

section \<open>The worker loop ends when no work is left\<close>

lemma collect_quiet:
  "collect mx quiet prio (batch, s) =
     (batch @ take (taken mx (length batch) (queue s prio)) (queue s prio),
      (if drop (taken mx (length batch) (queue s prio)) (queue s prio) \<noteq> []
       then s\<lparr>queue := (queue s)(prio := drop (taken mx (length batch) (queue s prio)) (queue s prio)),
              workToDo := True\<rparr>
       else s\<lparr>queue := (queue s)(prio := [])\<rparr>))"
  by (auto simp add: collect_def Let_def drain_eq taken_full split: prod.splits)

lemma collect_quiet_empty:
  "queue s prio = [] \<Longrightarrow> collect mx quiet prio (batch, s) = (batch, s)"
  by (simp add: collect_quiet taken_def) (metis fun_upd_triv batcher.surjective batcher.update_convs(1))

lemma collect_quiet_nothing:
  "fst (collect mx quiet prio ([], s)) = [] \<Longrightarrow> queue s prio = []"
  by (auto simp add: collect_fst taken_def min_def split: if_splits)

lemma taken_eq_length: "length q \<le> taken mx n q \<Longrightarrow> taken mx n q = length q"
  using taken_le [of mx n q] by simp

lemma collect_quiet_backlog:
  "backlog (snd (collect mx quiet prio bs)) + length (fst (collect mx quiet prio bs)) =
     backlog (snd bs) + length (fst bs)"
  by (cases bs; cases prio) (auto simp add: collect_quiet backlog_def taken_le taken_eq_length)

lemma gather_quiet_backlog:
  "backlog (snd (gather mx quiet s)) + length (fst (gather mx quiet s)) = backlog s"
proof -
  let ?c1 = "collect mx quiet menuPriorityHIGH ([], s)"
  let ?c2 = "collect mx quiet menuPriorityMID ?c1"
  let ?c3 = "collect mx quiet menuPriorityLOW ?c2"
  have "backlog (snd ?c3) + length (fst ?c3) = backlog (snd ?c2) + length (fst ?c2)"
    by (rule collect_quiet_backlog)
  also have "\<dots> = backlog (snd ?c1) + length (fst ?c1)"
    by (rule collect_quiet_backlog)
  also have "\<dots> = backlog s"
    using collect_quiet_backlog [of mx menuPriorityHIGH "([], s)"] by simp
  finally show ?thesis
    by (simp add: gather_unfold)
qed

lemma gather_quiet_nothing:
  assumes "fst (gather mx quiet s) = []"
  shows "snd (gather mx quiet s) = s"
proof -
  let ?c1 = "collect mx quiet menuPriorityHIGH ([], s)"
  let ?c2 = "collect mx quiet menuPriorityMID ?c1"
  let ?c3 = "collect mx quiet menuPriorityLOW ?c2"
  from assms have e3: "fst ?c3 = []"
    by (simp add: gather_unfold)
  then have e2: "fst ?c2 = []"
    by (subst (asm) collect_fst) simp
  then have e1: "fst ?c1 = []"
    by (subst (asm) collect_fst) simp
  from e1 have q1: "queue s menuPriorityHIGH = []"
    by (rule collect_quiet_nothing)
  then have c1: "?c1 = ([], s)"
    by (rule collect_quiet_empty)
  from e2 c1 have "queue s menuPriorityMID = []"
    by (simp add: collect_quiet_nothing)
  then have c2: "?c2 = ([], s)"
    by (simp add: c1 collect_quiet_empty)
  from e3 c2 have "queue s menuPriorityLOW = []"
    by (simp add: collect_quiet_nothing)
  then have "?c3 = ([], s)"
    by (simp add: c2 collect_quiet_empty)
  then show ?thesis
    by (simp add: gather_unfold)
qed

lemma cycle_quiet_snd:
  "snd (cycle consumer quiet s) = snd (gather (unat (maxBatchSize s)) quiet s)"
  by (simp add: cycle_def Let_def split: prod.splits)

lemma cycle_quiet_backlog:
  "backlog (snd (cycle consumer quiet s)) + length (collected (fst (cycle consumer quiet s)))
     = backlog s"
  by (simp add: cycle_quiet_snd cycle_collected gather_quiet_backlog)

lemma cycle_quiet_nothing:
  "collected (fst (cycle consumer quiet s)) = [] \<Longrightarrow> snd (cycle consumer quiet s) = s"
  by (simp add: cycle_quiet_snd cycle_collected gather_quiet_nothing)

lemma run_measure:
  assumes "workToDo s"
  shows "2 * backlog (snd (cycle consumer quiet (s\<lparr>workToDo := False\<rparr>)))
           + (if workToDo (snd (cycle consumer quiet (s\<lparr>workToDo := False\<rparr>))) then 1 else 0)
         < 2 * backlog s + (if workToDo s then 1 else 0)"
proof (cases "collected (fst (cycle consumer quiet (s\<lparr>workToDo := False\<rparr>))) = []")
  case True
  then have "snd (cycle consumer quiet (s\<lparr>workToDo := False\<rparr>)) = s\<lparr>workToDo := False\<rparr>"
    by (rule cycle_quiet_nothing)
  with assms show ?thesis
    by (simp add: backlog_def)
next
  case False
  then have "0 < length (collected (fst (cycle consumer quiet (s\<lparr>workToDo := False\<rparr>))))"
    by simp
  moreover have "backlog (s\<lparr>workToDo := False\<rparr>) = backlog s"
    by (simp add: backlog_def)
  ultimately have "backlog (snd (cycle consumer quiet (s\<lparr>workToDo := False\<rparr>))) < backlog s"
    using cycle_quiet_backlog [of consumer "s\<lparr>workToDo := False\<rparr>"] by linarith
  with assms show ?thesis
    by simp
qed

termination run
proof (relation "measure (\<lambda>(consumer, s). 2 * backlog s + (if workToDo s then 1 else 0))")
  show "wf (measure (\<lambda>(consumer :: 'a list \<Rightarrow> 'a list, s).
            2 * backlog s + (if workToDo s then 1 else 0)))"
    by simp
next
  fix consumer :: "'a list \<Rightarrow> 'a list" and s :: "'a batcher" and out s'
  assume "\<not> \<not> workToDo s" and "(out, s') = cycle consumer quiet (s\<lparr>workToDo := False\<rparr>)"
  then have "workToDo s" and "s' = snd (cycle consumer quiet (s\<lparr>workToDo := False\<rparr>))"
    by (simp, metis snd_conv)
  then show "((consumer, s'), consumer, s)
      \<in> measure (\<lambda>(consumer, s). 2 * backlog s + (if workToDo s then 1 else 0))"
    using run_measure [of s consumer] by simp
qed

section \<open>Residue wakes the worker again\<close>

lemma clear_queue [simp]: "queue (clear s) p = []"
  by (cases p) (simp_all add: clear_def)

lemma clear_workToDo [simp]: "workToDo (clear s) = workToDo s"
  by (simp add: clear_def)

lemma do_call_signal:
  "(queue s p \<noteq> [] \<longrightarrow> workToDo s) \<Longrightarrow>
     queue (do_call c s) p \<noteq> [] \<longrightarrow> workToDo (do_call c s)"
  by (cases c) (simp_all add: pushRequest_def pushRequests_def setParams_def Let_def)

lemma others_signal:
  "(queue s p \<noteq> [] \<longrightarrow> workToDo s) \<Longrightarrow>
     queue (others calls s) p \<noteq> [] \<longrightarrow> workToDo (others calls s)"
  unfolding others_def
proof (induction calls arbitrary: s)
  case Nil
  then show ?case by simp
next
  case (Cons c calls)
  from Cons.prems have "queue (do_call c s) p \<noteq> [] \<longrightarrow> workToDo (do_call c s)"
    by (rule do_call_signal)
  then show ?case
    using Cons.IH [of "do_call c s"] by simp
qed

lemma collect_signal_own:
  "queue (snd (collect mx env prio bs)) prio \<noteq> [] \<longrightarrow> workToDo (snd (collect mx env prio bs))"
  by (cases bs) (simp add: collect_def Let_def split: prod.splits)

lemma collect_signal_keep:
  assumes "queue (snd bs) p \<noteq> [] \<longrightarrow> workToDo (snd bs)"
  shows "queue (snd (collect mx env prio bs)) p \<noteq> [] \<longrightarrow> workToDo (snd (collect mx env prio bs))"
proof (cases "p = prio")
  case True
  then show ?thesis by (simp add: collect_signal_own)
next
  case False
  obtain batch s where bs: "bs = (batch, s)" by (cases bs)
  let ?s1 = "others (env (BeforeLock prio)) s"
  from assms bs have s1: "queue ?s1 p \<noteq> [] \<longrightarrow> workToDo ?s1"
    by (simp add: others_signal)
  have a: "queue (others (env (BeforeCheck prio)) (?s1\<lparr>queue := (queue ?s1)(prio := q')\<rparr>)) p \<noteq> []
      \<longrightarrow> workToDo (others (env (BeforeCheck prio)) (?s1\<lparr>queue := (queue ?s1)(prio := q')\<rparr>))"
    for q'
    by (rule others_signal) (use s1 False in simp)
  have b: "queue (others (env (BeforeCheck prio)) ?s1) p \<noteq> []
      \<longrightarrow> workToDo (others (env (BeforeCheck prio)) ?s1)"
    using s1 by (rule others_signal)
  show ?thesis
    using a b by (simp add: bs collect_def Let_def split: prod.splits)
qed

lemma gather_signal:
  "queue (snd (gather mx env s)) p \<noteq> [] \<longrightarrow> workToDo (snd (gather mx env s))"
proof (cases p)
  case menuPriorityLOW
  show ?thesis
    unfolding gather_unfold menuPriorityLOW by (rule collect_signal_own)
next
  case menuPriorityMID
  show ?thesis
    unfolding gather_unfold menuPriorityMID
    by (rule collect_signal_keep) (rule collect_signal_own)
next
  case menuPriorityHIGH
  show ?thesis
    unfolding gather_unfold menuPriorityHIGH
    by (rule collect_signal_keep, rule collect_signal_keep) (rule collect_signal_own)
qed

lemma cycle_snd:
  "snd (cycle consumer env s) =
     others (env BeforeHoldOff)
       (snd (gather (unat (maxBatchSize (others (env BeforeParams) s))) env
               (others (env BeforeParams) s)))"
  by (simp add: cycle_def Let_def split: prod.splits)

lemma cycle_signal:
  "queue (snd (cycle consumer env s)) p \<noteq> [] \<longrightarrow> workToDo (snd (cycle consumer env s))"
  unfolding cycle_snd by (rule others_signal) (rule gather_signal)

lemma do_call_workToDo: "workToDo s \<Longrightarrow> workToDo (do_call c s)"
  by (cases c) (simp_all add: pushRequest_def pushRequests_def setParams_def Let_def)

lemma others_workToDo: "workToDo s \<Longrightarrow> workToDo (others calls s)"
  unfolding others_def
  by (induction calls arbitrary: s) (simp_all add: do_call_workToDo)

lemma collect_workToDo: "workToDo (snd bs) \<Longrightarrow> workToDo (snd (collect mx env prio bs))"
  by (cases bs) (simp add: collect_def Let_def others_workToDo split: prod.splits)

lemma collect_quiet_shutdown:
  "workerShutdown (snd (collect mx quiet prio bs)) = workerShutdown (snd bs)"
  by (cases bs) (simp add: collect_quiet)

lemma cycle_quiet_shutdown:
  "workerShutdown (snd (cycle consumer quiet s)) = workerShutdown s"
  by (simp add: cycle_quiet_snd gather_unfold collect_quiet_shutdown)

lemma collect_quiet_waiting:
  "mset (fst (collect mx quiet prio bs)) + waiting (snd (collect mx quiet prio bs)) =
     mset (fst bs) + waiting (snd bs)"
proof -
  obtain batch s where bs: "bs = (batch, s)" by (cases bs)
  let ?q = "queue s prio"
  let ?k = "taken mx (length batch) ?q"
  have "mset (take ?k ?q) + mset (drop ?k ?q) = mset ?q"
    by (metis append_take_drop_id mset_append)
  then show ?thesis
    by (cases prio) (auto simp add: bs collect_quiet waiting_def ac_simps)
qed

lemma cycle_quiet_waiting:
  "mset (collected (fst (cycle consumer quiet s))) + waiting (snd (cycle consumer quiet s))
     = waiting s"
proof -
  let ?mx = "unat (maxBatchSize s)"
  let ?c1 = "collect ?mx quiet menuPriorityHIGH ([], s)"
  let ?c2 = "collect ?mx quiet menuPriorityMID ?c1"
  let ?c3 = "collect ?mx quiet menuPriorityLOW ?c2"
  have "mset (fst ?c3) + waiting (snd ?c3) = mset (fst ?c2) + waiting (snd ?c2)"
    by (rule collect_quiet_waiting)
  also have "\<dots> = mset (fst ?c1) + waiting (snd ?c1)"
    by (rule collect_quiet_waiting)
  also have "\<dots> = waiting s"
    using collect_quiet_waiting [of ?mx menuPriorityHIGH "([], s)"] by simp
  finally show ?thesis
    by (simp add: cycle_quiet_snd cycle_collected gather_unfold)
qed

lemma run_drains:
  "\<not> workerShutdown s \<Longrightarrow> (\<forall>p. queue s p \<noteq> [] \<longrightarrow> workToDo s) \<Longrightarrow>
     queue (snd (run consumer s)) p = []"
proof (induction consumer s rule: run.induct)
  case (1 consumer s)
  show ?case
  proof (cases "workToDo s")
    case False
    with "1.prems" show ?thesis by simp
  next
    case True
    let ?c = "cycle consumer quiet (s\<lparr>workToDo := False\<rparr>)"
    have ns: "\<not> workerShutdown (snd ?c)"
      using "1.prems"(1) by (simp add: cycle_quiet_shutdown)
    have sig: "\<forall>p. queue (snd ?c) p \<noteq> [] \<longrightarrow> workToDo (snd ?c)"
      by (simp add: cycle_signal)
    have "queue (snd (run consumer (snd ?c))) p = []"
      using "1.IH" [of "fst ?c" "snd ?c"] True "1.prems"(1) ns sig by simp
    with True "1.prems"(1) show ?thesis
      by (simp add: split_beta)
  qed
qed

lemma run_conserves:
  "mset (concat (map collected (fst (run consumer s)))) + waiting (snd (run consumer s))
     = waiting s"
proof (induction consumer s rule: run.induct)
  case (1 consumer s)
  show ?case
  proof (cases "workToDo s \<and> \<not> workerShutdown s")
    case False
    then show ?thesis by (auto simp add: waiting_def)
  next
    case True
    let ?c = "cycle consumer quiet (s\<lparr>workToDo := False\<rparr>)"
    have "mset (concat (map collected (fst (run consumer (snd ?c)))))
            + waiting (snd (run consumer (snd ?c))) = waiting (snd ?c)"
      using "1.IH" [of "fst ?c" "snd ?c"] True by simp
    moreover have "mset (collected (fst ?c)) + waiting (snd ?c) = waiting s"
      using cycle_quiet_waiting [of consumer "s\<lparr>workToDo := False\<rparr>"]
      by (simp add: waiting_def)
    ultimately show ?thesis
      using True by (simp add: split_beta ac_simps)
  qed
qed

text \<open>
  C4: when the worker, after draining the queue of a priority, finds that queue not empty
  it signals \<open>workToDo\<close> in that pass. At the end of every pass, whatever other threads did
  meanwhile, a queue that is not empty implies that the event is signalled, so the next
  \<^verbatim>\<open>wait\<close> returns without any producer. Left alone, the worker therefore goes on until all
  queues are empty and every waiting request was in a batch: no request stays behind the
  limit.
\<close>

theorem self_yield:
  "(queue (snd (collect mx env prio bs)) prio \<noteq> [] \<longrightarrow> workToDo (snd (collect mx env prio bs)))
   \<and> (queue (snd (cycle consumer env s)) prio \<noteq> [] \<longrightarrow> workToDo (snd (cycle consumer env s)))
   \<and> ((\<forall>p. queue s p \<noteq> [] \<longrightarrow> workToDo s) \<and> \<not> workerShutdown s \<longrightarrow>
         (\<forall>p. queue (snd (run consumer s)) p = [])
         \<and> mset (concat (map collected (fst (run consumer s)))) = waiting s)"
proof -
  have "mset (concat (map collected (fst (run consumer s)))) = waiting s"
    if "\<forall>p. queue (snd (run consumer s)) p = []"
    using that run_conserves [of consumer s] by (simp add: waiting_def)
  then show ?thesis
    using run_drains [of s consumer] by (simp add: collect_signal_own cycle_signal)
qed

theorem self_yield_witness:
  "queue (snd (collect 2 quiet menuPriorityLOW ([], capped))) menuPriorityLOW = [3, 4, 5]
   \<and> workToDo (snd (collect 2 quiet menuPriorityLOW ([], capped)))
   \<and> queue (snd (cycle id quiet capped)) menuPriorityLOW = [3, 4, 5]
   \<and> workToDo (snd (cycle id quiet capped))
   \<and> workToDo capped \<and> \<not> workerShutdown capped
   \<and> map collected (fst (run id capped)) = [[1, 2], [3, 4], [5]]
   \<and> (\<forall>p. queue (snd (run id capped)) p = [])
   \<and> mset (concat (map collected (fst (run id capped)))) = waiting capped"
proof -
  have a: "queue (snd (collect 2 quiet menuPriorityLOW ([], capped))) menuPriorityLOW = [3, 4, 5]"
    by (simp add: capped_eq pass_defs)
  have b: "queue (snd (cycle id quiet capped)) menuPriorityLOW = [3, 4, 5]"
    by (simp add: capped_eq pass_defs)
  have c: "workToDo capped" "\<not> workerShutdown capped"
    by (simp_all add: capped_eq)
  have d: "map collected (fst (run id capped)) = [[1, 2], [3, 4], [5]]"
    by (simp add: capped_eq pass_defs)
  from self_yield [of 2 quiet menuPriorityLOW "([], capped)" id capped] a b c d
  show ?thesis
    by simp
qed

section \<open>A wake without work\<close>

text \<open>\<open>holdOffFix\<close> holds a double in every state that the constructor, calls and passes of
  the worker lead to.\<close>

lemma do_call_is_double:
  "is_double (holdOffFix s) \<Longrightarrow> is_double (holdOffFix (do_call c s))"
  by (cases c) (simp_all add: pushRequest_def pushRequests_def clear_def setParams_holdOffFix)

lemma others_is_double:
  "is_double (holdOffFix s) \<Longrightarrow> is_double (holdOffFix (others calls s))"
  unfolding others_def
  by (induction calls arbitrary: s) (simp_all add: do_call_is_double)

lemma collect_is_double:
  assumes "is_double (holdOffFix (snd bs))"
  shows "is_double (holdOffFix (snd (collect mx env prio bs)))"
proof -
  obtain batch s where bs: "bs = (batch, s)" by (cases bs)
  let ?s1 = "others (env (BeforeLock prio)) s"
  have "is_double (holdOffFix ?s1)"
    using assms by (simp add: bs others_is_double)
  then have "is_double (holdOffFix (others (env (BeforeCheck prio)) (?s1\<lparr>queue := q\<rparr>)))"
    and "is_double (holdOffFix (others (env (BeforeCheck prio)) ?s1))" for q
    by (simp_all add: others_is_double)
  then show ?thesis
    by (simp add: bs collect_def Let_def split: prod.splits)
qed

lemma cycle_is_double:
  "is_double (holdOffFix s) \<Longrightarrow> is_double (holdOffFix (snd (cycle consumer env s)))"
  by (simp add: cycle_snd gather_unfold others_is_double collect_is_double)

lemma init_is_double: "is_double (holdOffFix (RequestQueueBatcher mb mn mx))"
  by simp

lemma holdOff_empty: "is_double f \<Longrightarrow> dadd f (dmul v (of_size 0)) = f"
  by (simp add: dadd_def dmul_def of_size_def is_double_def)

lemma gather_quiet_empty:
  "\<forall>p. queue s p = [] \<Longrightarrow> gather mx quiet s = ([], s)"
  by (simp add: gather_unfold collect_quiet_empty)

text \<open>
  C5: \<^verbatim>\<open>consumer.processRequests\<close> is called exactly when the batch is not empty, with the
  batch as argument. A pass that finds all three queues empty delivers nothing and computes
  the hold-off \<open>holdOffFix\<close>, the variable part being zero; it then sleeps that long (the
  call of \<^verbatim>\<open>sleep\<close> is left out when the hold-off is not positive, which is a sleep of no
  time).
\<close>

theorem empty_wake:
  "(processRequests (fst (cycle consumer env s)) \<noteq> None
      \<longleftrightarrow> collected (fst (cycle consumer env s)) \<noteq> [])
   \<and> (processRequests (fst (cycle consumer env s)) = Some b
      \<longrightarrow> b = collected (fst (cycle consumer env s)))
   \<and> ((\<forall>p. queue s p = []) \<and> is_double (holdOffFix s) \<longrightarrow>
        collected (fst (cycle consumer quiet s)) = []
        \<and> processRequests (fst (cycle consumer quiet s)) = None
        \<and> holdOff (fst (cycle consumer quiet s)) = holdOffFix s
        \<and> sleep (fst (cycle consumer quiet s))
            = (if 0 < holdOffFix s then Some (holdOffFix s) else None))"
proof -
  have "fst (cycle consumer quiet s) =
      \<lparr>collected = [], processRequests = None, holdOff = holdOffFix s,
       sleep = (if 0 < holdOffFix s then Some (holdOffFix s) else None)\<rparr>"
    if "\<forall>p. queue s p = []" "is_double (holdOffFix s)"
    using that by (simp add: cycle_def Let_def gather_quiet_empty holdOff_empty)
  then show ?thesis
    by (auto simp add: cycle_def Let_def split: prod.splits)
qed

lemma idle_empty: "queue idle p = []"
  by (cases p) (simp_all add: idle_def pushRequests_def RequestQueueBatcher_def setParams_def)

theorem empty_wake_witness:
  "(\<forall>p. queue idle p = []) \<and> is_double (holdOffFix idle) \<and> workToDo idle
   \<and> collected (fst (cycle id quiet idle)) = []
   \<and> processRequests (fst (cycle id quiet idle)) = None
   \<and> holdOff (fst (cycle id quiet idle)) = holdOffFix idle
   \<and> holdOffFix idle = 5764607523034235 / 576460752303423488
   \<and> sleep (fst (cycle id quiet idle)) = Some (holdOffFix idle)
   \<and> processRequests (fst (cycle id quiet capped)) = Some [1, 2]
   \<and> collected (fst (cycle id quiet capped)) = [1, 2]"
proof -
  have f: "holdOffFix idle = to_double (1 / 100)"
    by (simp add: idle_def pushRequests_def)
  then have "is_double (holdOffFix idle)"
    by simp
  with idle_empty have a: "(\<forall>p. queue idle p = []) \<and> is_double (holdOffFix idle)"
    by simp
  have b: "workToDo idle" "0 < holdOffFix idle"
    "holdOffFix idle = 5764607523034235 / 576460752303423488"
    by (simp_all add: f round_1_100) (simp add: idle_def pushRequests_def)
  have c: "processRequests (fst (cycle id quiet capped)) = Some [1, 2]"
    by (simp add: capped_eq pass_defs)
  from empty_wake [of id quiet idle] a
  have d: "collected (fst (cycle id quiet idle)) = []
      \<and> processRequests (fst (cycle id quiet idle)) = None
      \<and> holdOff (fst (cycle id quiet idle)) = holdOffFix idle
      \<and> sleep (fst (cycle id quiet idle))
            = (if 0 < holdOffFix idle then Some (holdOffFix idle) else None)"
    by blast
  from empty_wake [of id quiet capped "[1, 2]"] c
  have e: "collected (fst (cycle id quiet capped)) = [1, 2]"
    by simp
  from d b have "sleep (fst (cycle id quiet idle)) = Some (holdOffFix idle)"
    by simp
  with a b c d e show ?thesis
    by blast
qed

section \<open>The parameters a pass uses\<close>

lemma do_call_params: "\<not> is_setParams c \<Longrightarrow> params (do_call c s) = params s"
  by (cases c) (simp_all add: params_def pushRequest_def pushRequests_def clear_def)

lemma others_params: "\<forall>c\<in>set calls. \<not> is_setParams c \<Longrightarrow> params (others calls s) = params s"
  unfolding others_def
  by (induction calls arbitrary: s) (simp_all add: do_call_params)

lemma collect_params:
  assumes "\<forall>c\<in>set (env (BeforeLock prio)). \<not> is_setParams c"
    and "\<forall>c\<in>set (env (BeforeCheck prio)). \<not> is_setParams c"
  shows "params (snd (collect mx env prio bs)) = params (snd bs)"
proof -
  obtain batch s where bs: "bs = (batch, s)" by (cases bs)
  let ?s1 = "others (env (BeforeLock prio)) s"
  have s1: "params ?s1 = params s"
    using assms(1) by (rule others_params)
  have a: "params (others (env (BeforeCheck prio)) (?s1\<lparr>queue := q\<rparr>)) = params s" for q
    using others_params [OF assms(2), of "?s1\<lparr>queue := q\<rparr>"] s1 by (simp add: params_def)
  have b: "params (others (env (BeforeCheck prio)) ?s1) = params s"
    using others_params [OF assms(2), of ?s1] s1 by simp
  have c: "params (t\<lparr>workToDo := True\<rparr>) = params t" for t :: "'a batcher"
    by (simp add: params_def)
  show ?thesis
    by (simp add: bs collect_def Let_def a b c split: prod.splits)
qed

lemma gather_params:
  assumes "\<forall>prio. \<forall>c\<in>set (env (BeforeLock prio)). \<not> is_setParams c"
    and "\<forall>prio. \<forall>c\<in>set (env (BeforeCheck prio)). \<not> is_setParams c"
  shows "params (snd (gather mx env s)) = params s"
  using assms by (simp add: gather_unfold collect_params)

lemma cycle_reads:
  "fst (cycle consumer env s) =
     fst (cycle_snapshot
            (maxBatchSize (others (env BeforeParams) s),
             holdOffVar (snd (cycle consumer env s)), holdOffFix (snd (cycle consumer env s)))
            consumer env s)"
  by (simp add: cycle_def cycle_snapshot_def Let_def split: prod.splits)

text \<open>
  C7 (amended): a pass reads the parameter block twice, each time in one critical section:
  \<open>maxBatchSize\<close> before it collects, and \<open>holdOffFix\<close> together with \<open>holdOffVar\<close> after the
  consumer has returned. The pass is the one that the limit as it is at the first read and
  the two hold-off values as they are at the end of the pass determine. When no
  \<^verbatim>\<open>setParams\<close> call takes effect after the first read, the three values are one snapshot of
  the block.
\<close>

theorem params_read_twice:
  "fst (cycle consumer env s) =
     fst (cycle_snapshot
            (maxBatchSize (others (env BeforeParams) s),
             holdOffVar (snd (cycle consumer env s)), holdOffFix (snd (cycle consumer env s)))
            consumer env s)
   \<and> ((\<forall>pt. pt \<noteq> BeforeParams \<longrightarrow> (\<forall>c\<in>set (env pt). \<not> is_setParams c)) \<longrightarrow>
        fst (cycle consumer env s) =
          fst (cycle_snapshot (params (others (env BeforeParams) s)) consumer env s))"
proof -
  let ?s0 = "others (env BeforeParams) s"
  have "params (snd (cycle consumer env s)) = params ?s0"
    if h: "\<forall>pt. pt \<noteq> BeforeParams \<longrightarrow> (\<forall>c\<in>set (env pt). \<not> is_setParams c)"
  proof -
    have "params (snd (gather (unat (maxBatchSize ?s0)) env ?s0)) = params ?s0"
      using h by (intro gather_params) auto
    moreover have "\<forall>c\<in>set (env BeforeHoldOff). \<not> is_setParams c"
      using h by auto
    ultimately show ?thesis
      by (simp add: cycle_snd others_params)
  qed
  then have "(maxBatchSize ?s0, holdOffVar (snd (cycle consumer env s)),
              holdOffFix (snd (cycle consumer env s))) = params ?s0"
    if "\<forall>pt. pt \<noteq> BeforeParams \<longrightarrow> (\<forall>c\<in>set (env pt). \<not> is_setParams c)"
    using that by (simp add: params_def)
  then show ?thesis
    using cycle_reads [of consumer env s] by auto
qed


theorem params_read_twice_witness:
  "maxBatchSize (others (early_params BeforeParams) capped) = 3
   \<and> fst (cycle id early_params capped) =
       fst (cycle_snapshot (params (others (early_params BeforeParams) capped))
              id early_params capped)
   \<and> collected (fst (cycle id early_params capped)) = [9, 1, 2]"
proof -
  have a: "\<forall>pt. pt \<noteq> BeforeParams \<longrightarrow> (\<forall>c\<in>set (early_params pt). \<not> is_setParams c)"
    by (simp add: early_params_def quiet_def)
  have b: "maxBatchSize (others (early_params BeforeParams) capped) = 3"
    by (simp add: early_params_def quiet_def others_def setParams_maxBatchSize)
  have c: "collected (fst (cycle id early_params capped)) = [9, 1, 2]"
    by (simp add: capped_eq early_params_def pass_defs setParams_def pushRequest_def)
  from params_read_twice [of id early_params capped] a
  have "fst (cycle id early_params capped) =
      fst (cycle_snapshot (params (others (early_params BeforeParams) capped))
             id early_params capped)"
    by blast
  with b c show ?thesis
    by blast
qed

text \<open>
  C7 as stated fails. The batcher is limited to two requests per batch and has no hold-off;
  while the consumer processes the batch, another thread calls \<^verbatim>\<open>setParams(10, 10, 100)\<close>.
  The pass delivers two requests, by the old limit, and then holds off 0.01 + 0.009 * 2
  seconds, by the new values. With the old snapshot throughout it would not hold off at
  all, with the new one it would deliver all five requests.
\<close>

theorem torn_params_counterexample:
  "params capped = (2, 0, 0)
   \<and> params (setParams 10 10 100 capped)
       = (10, 5188146770730811 / 576460752303423488, 5764607523034235 / 576460752303423488)
   \<and> collected (fst (cycle id late_params capped)) = [1, 2]
   \<and> holdOff (fst (cycle id late_params capped)) = 1008806316530991 / 36028797018963968
   \<and> holdOff (fst (cycle_snapshot (params capped) id late_params capped)) = 0
   \<and> collected (fst (cycle_snapshot (params (setParams 10 10 100 capped)) id late_params capped))
       = [1, 2, 3, 4, 5]
   \<and> fst (cycle id late_params capped)
       \<noteq> fst (cycle_snapshot (params capped) id late_params capped)
   \<and> fst (cycle id late_params capped)
       \<noteq> fst (cycle_snapshot (params (setParams 10 10 100 capped)) id late_params capped)"
proof -
  have a: "params capped = (2, 0, 0)"
    by (simp add: params_def capped_eq)
  have b: "params (setParams 10 10 100 capped)
       = (10, 5188146770730811 / 576460752303423488, 5764607523034235 / 576460752303423488)"
    by (simp add: params_def setParams_maxBatchSize setParams_holdOffVar setParams_holdOffFix
        round_9_1000 round_1_100)
  have c: "collected (fst (cycle id late_params capped)) = [1, 2]"
    by (simp add: capped_eq late_params_def pass_defs)
  have "holdOff (fst (cycle id late_params capped))
      = dadd (5764607523034235 / 576460752303423488)
          (dmul (5188146770730811 / 576460752303423488) (of_size (Suc (Suc 0))))"
    by (simp add: capped_eq late_params_def pass_defs setParams_holdOffVar setParams_holdOffFix
        round_9_1000 round_1_100)
  also have "\<dots> = 1008806316530991 / 36028797018963968"
    by (simp add: dadd_def dmul_def of_size_def to_double_numeral round_018 round_028)
  finally have d:
    "holdOff (fst (cycle id late_params capped)) = 1008806316530991 / 36028797018963968" .
  have e: "holdOff (fst (cycle_snapshot (params capped) id late_params capped)) = 0"
    by (simp only: a) (simp add: capped_eq late_params_def pass_defs dadd_def dmul_def)
  have f: "collected (fst (cycle_snapshot (params (setParams 10 10 100 capped)) id late_params capped))
       = [1, 2, 3, 4, 5]"
    by (simp only: b) (simp add: capped_eq late_params_def pass_defs)
  have g: "fst (cycle id late_params capped)
       \<noteq> fst (cycle_snapshot (params capped) id late_params capped)"
    using d e by (metis divide_eq_0_iff numeral_neq_zero)
  have h: "fst (cycle id late_params capped)
       \<noteq> fst (cycle_snapshot (params (setParams 10 10 100 capped)) id late_params capped)"
    using c f by (metis list.inject list.distinct(1))
  from a b c d e f g h show ?thesis
    by blast
qed

section \<open>Splitting link strings\<close>

text \<open>The scan passes every test of \<^verbatim>\<open>LinkParserTest.cpp\<close>.\<close>

lemma LinkParserTest_passes:
  "list_all (\<lambda>(str, expected). splitString str defaultElementDelimiter = expected) LinkParserTest"
  by (simp add: LinkParserTest_def splitString_def defaultElementDelimiter_def series_input_def
      series_expected_def backslash_def)










text \<open>
  C9, with the length of the last input as it is: at the default delimiter \<^verbatim>\<open>splitString\<close>
  returns the outputs of the corpus, and the input of the test
  \<^verbatim>\<open>splitString_seriesOfEscapedBackslashesAndDelimiters\<close>, which has 23 characters and
  contains two backslashes followed by a dot, yields the single token that the test
  expects: there is no split at the dot after the two backslashes.
\<close>

theorem corpus_outputs:
  "splitString [] defaultElementDelimiter = [[]]
   \<and> splitString ''.'' defaultElementDelimiter = [[], []]
   \<and> splitString ''..'' defaultElementDelimiter = [[], [], []]
   \<and> splitString ''one.two.three'' defaultElementDelimiter = [''one'', ''two'', ''three'']
   \<and> splitString (''one'' @ [backslash] @ ''.two'') defaultElementDelimiter = [''one.two'']
   \<and> splitString ''.two.three'' defaultElementDelimiter = [[], ''two'', ''three'']
   \<and> splitString ''one.two.'' defaultElementDelimiter = [''one'', ''two'', []]
   \<and> length series_input = 23
   \<and> splitString series_input defaultElementDelimiter
       = [''one..'' @ [backslash] @ ''.two..'' @ [backslash] @ ''three'']
   \<and> length (splitString series_input defaultElementDelimiter) = 1"
  by (simp add: splitString_def defaultElementDelimiter_def series_input_def backslash_def)

text \<open>C9 as stated fails in one point: the last input does not have 21 characters.\<close>

theorem series_length_counterexample:
  "series_input =
     ''one'' @ [backslash] @ ''.'' @ [backslash] @ ''.'' @ [backslash, backslash] @ ''.two''
       @ [backslash] @ ''.'' @ [backslash] @ ''.'' @ [backslash] @ ''three''
   \<and> length series_input = 23
   \<and> length series_input \<noteq> 21"
  by (simp add: series_input_def)

end
